theory Spec2Isabelle
  imports Main "HOL-Library.Word" "HOL-Library.Sublist"
begin

section \<open>The stack walker of \<^verbatim>\<open>src/hotspot/share/prims/stackwalk.cpp\<close>\<close>

text \<open>
  A shallow embedding of the batched stack walker. The model is of the 64-bit build
  (\<^verbatim>\<open>_LP64\<close> defined) with assertions and array bounds checks live: a failed
  \<^verbatim>\<open>assert\<close>, a dereference of \<^verbatim>\<open>NULL\<close> and an access out of an array's bounds end
  the VM, which the model returns as the value \<open>Fatal\<close>.
\<close>

subsection \<open>Values and errors\<close>

text \<open>An \<^verbatim>\<open>oop\<close> is a reference into the Java heap; \<^verbatim>\<open>NULL\<close> is 0.\<close>

type_synonym oop = nat
type_synonym jlong = "64 word"
type_synonym jint = "32 word"

abbreviation (input) NULL :: oop where "NULL \<equiv> 0"

text \<open>
  The C++ type \<^verbatim>\<open>int\<close> has 32 bits. The model keeps a value of this type as an integer
  of its range and writes out the sum of two of them where the source compares the sum
  with a bound: the compiled code takes the sum modulo \<open>2\<^sup>3\<^sup>2\<close> (in C++ itself the overflow
  of a signed sum has no defined behaviour).
\<close>

definition jint_add :: "int \<Rightarrow> int \<Rightarrow> int" where
  "jint_add a b = sint (word_of_int (a + b) :: 32 word)"

text \<open>
  What a call can end with besides a value: the three Java exceptions that
  \<^verbatim>\<open>THROW_MSG\<close> raises in this file (with their messages), an exception that the
  Java callee left pending, and the end of the VM.
\<close>

datatype throwable =
    NullPointerException string
  | InternalError string
  | UnsupportedOperationException string
  | PendingException nat
  | Fatal string

text \<open>The names the specification gives to the errors of this file.\<close>

abbreviation NullBuffer :: throwable where
  "NullBuffer \<equiv> NullPointerException ''frames_array is NULL''"
abbreviation CorruptedBuffer :: throwable where
  "CorruptedBuffer \<equiv> InternalError ''doStackWalk: corrupted buffers''"
abbreviation CorruptedBufferOnExit :: throwable where
  "CorruptedBufferOnExit \<equiv> InternalError ''doStackWalk: corrupted buffers on exit''"
abbreviation DecodeFailure :: throwable where
  "DecodeFailure \<equiv> InternalError ''stack walk: decode failed''"
abbreviation LaterDecodeFailure :: throwable where
  "LaterDecodeFailure \<equiv> InternalError ''doStackWalk: later decode failed''"
abbreviation InternalDecodeError :: throwable where
  "InternalDecodeError \<equiv> InternalError ''Unexpected StackValue type''"

subsection \<open>Stack values and their boxes\<close>

datatype BasicType =
    T_BOOLEAN | T_CHAR | T_FLOAT | T_DOUBLE | T_BYTE | T_SHORT | T_INT | T_LONG
  | T_OBJECT | T_ARRAY | T_VOID | T_ADDRESS | T_NARROWOOP | T_METADATA | T_NARROWKLASS
  | T_CONFLICT | T_ILLEGAL

text \<open>
  Modelled from the spec: \<^verbatim>\<open>StackValue\<close> and \<^verbatim>\<open>StackValueCollection\<close> (stackValue.hpp,
  stackValueCollection.cpp) are not among the sources. A stack value is a typed slot that
  holds a full machine word (\<^verbatim>\<open>intptr_t\<close>, 64 bits here) or an object reference; a
  collection is the ordered sequence of the slots of a frame. \<^verbatim>\<open>at\<close> checks its
  index; \<^verbatim>\<open>int_at\<close> truncates the word of the slot to a \<^verbatim>\<open>jint\<close>; \<^verbatim>\<open>long_at(slot)\<close>
  reads the word of slot \<open>slot + 1\<close>, the "+1 in StackValueCollection::long_at" that the
  comment in \<^verbatim>\<open>values_to_object_array\<close> speaks of.
\<close>

record StackValue =
  sv_type :: BasicType
  sv_integer_value :: "64 word"
  sv_handle_value :: oop

type_synonym StackValueCollection = "StackValue list"

definition sv_at :: "StackValueCollection \<Rightarrow> int \<Rightarrow> throwable + StackValue" where
  "sv_at values i =
     (if 0 \<le> i \<and> i < int (length values) then Inr (values ! nat i)
      else Inl (Fatal ''StackValueCollection::at: index out of bounds''))"

definition int_at :: "StackValueCollection \<Rightarrow> int \<Rightarrow> throwable + jint" where
  "int_at values slot =
     (case sv_at values slot of Inl e \<Rightarrow> Inl e | Inr st \<Rightarrow> Inr (ucast (sv_integer_value st)))"

definition long_at :: "StackValueCollection \<Rightarrow> int \<Rightarrow> throwable + jlong" where
  "long_at values slot =
     (case sv_at values (slot + 1) of Inl e \<Rightarrow> Inl e | Inr st \<Rightarrow> Inr (sv_integer_value st))"

definition obj_at_sv :: "StackValueCollection \<Rightarrow> int \<Rightarrow> throwable + oop" where
  "obj_at_sv values slot =
     (case sv_at values slot of Inl e \<Rightarrow> Inl e | Inr st \<Rightarrow> Inr (sv_handle_value st))"

text \<open>
  Modelled from the spec: \<^verbatim>\<open>LiveStackFrameInfo.asPrimitive\<close> is Java code that is not
  among the sources. It boxes an integer or a wide integer as a primitive slot, and the
  box is read back with \<open>intValue\<close> or \<open>longValue\<close>. An element of the object array
  that \<^verbatim>\<open>values_to_object_array\<close> builds is a reference (maybe \<^verbatim>\<open>NULL\<close>) or such a box.
\<close>

datatype slot_object =
    Reference oop
  | PrimitiveSlot32 jint
  | PrimitiveSlot64 jlong

definition asPrimitive_int :: "jint \<Rightarrow> slot_object" where
  "asPrimitive_int v = PrimitiveSlot32 v"

definition asPrimitive_long :: "jlong \<Rightarrow> slot_object" where
  "asPrimitive_long v = PrimitiveSlot64 v"

fun longValue :: "slot_object \<Rightarrow> jlong option" where
  "longValue (PrimitiveSlot64 v) = Some v"
| "longValue _ = None"

fun intValue :: "slot_object \<Rightarrow> jint option" where
  "intValue (PrimitiveSlot32 v) = Some v"
| "intValue _ = None"

text \<open>\<^verbatim>\<open>LiveFrameStream::create_primitive_slot_instance\<close>, with \<^verbatim>\<open>_LP64\<close> defined.\<close>

fun create_primitive_slot_instance ::
  "StackValueCollection \<Rightarrow> int \<Rightarrow> BasicType \<Rightarrow> throwable + slot_object" where
  "create_primitive_slot_instance values i T_INT =
     (case int_at values i of Inl e \<Rightarrow> Inl e | Inr v \<Rightarrow> Inr (asPrimitive_int v))"
| "create_primitive_slot_instance values i T_LONG =
     (case long_at values i of Inl e \<Rightarrow> Inl e | Inr v \<Rightarrow> Inr (asPrimitive_long v))"
| "create_primitive_slot_instance values i T_FLOAT = Inl InternalDecodeError"
| "create_primitive_slot_instance values i T_DOUBLE = Inl InternalDecodeError"
| "create_primitive_slot_instance values i T_BYTE = Inl InternalDecodeError"
| "create_primitive_slot_instance values i T_SHORT = Inl InternalDecodeError"
| "create_primitive_slot_instance values i T_CHAR = Inl InternalDecodeError"
| "create_primitive_slot_instance values i T_BOOLEAN = Inl InternalDecodeError"
| "create_primitive_slot_instance values i T_OBJECT =
     (case obj_at_sv values i of Inl e \<Rightarrow> Inl e | Inr obj \<Rightarrow> Inr (Reference obj))"
| "create_primitive_slot_instance values i T_CONFLICT = Inr (asPrimitive_long 0)"
| "create_primitive_slot_instance values i _ = Inl (Fatal ''ShouldNotReachHere'')"

text \<open>
  The body of the loop of \<^verbatim>\<open>LiveFrameStream::values_to_object_array\<close> for the slot
  \<open>i\<close>: the type and the index that it passes on, and the object that comes back.
\<close>

definition slot_type_and_index :: "StackValueCollection \<Rightarrow> nat \<Rightarrow> BasicType \<times> int" where
  "slot_type_and_index values i =
     (let st = values ! i; type = sv_type st; index = int i
      in if type \<noteq> T_OBJECT \<and> type \<noteq> T_CONFLICT then (T_LONG, index - 1) else (type, index))"

definition slot_instance :: "StackValueCollection \<Rightarrow> nat \<Rightarrow> throwable + slot_object" where
  "slot_instance values i =
     (let (type, index) = slot_type_and_index values i
      in create_primitive_slot_instance values index type)"

fun values_loop ::
  "StackValueCollection \<Rightarrow> nat list \<Rightarrow> slot_object list \<Rightarrow> throwable + slot_object list" where
  "values_loop values [] array_h = Inr array_h"
| "values_loop values (i # is) array_h =
     (case slot_instance values i of
        Inl e \<Rightarrow> Inl e
      | Inr obj \<Rightarrow>
          values_loop values is (if obj \<noteq> Reference NULL then array_h[i := obj] else array_h))"

definition values_to_object_array ::
  "StackValueCollection \<Rightarrow> throwable + slot_object list" where
  "values_to_object_array values =
     values_loop values [0..<length values] (replicate (length values) (Reference NULL))"

subsection \<open>Methods, frames and Java objects\<close>

text \<open>
  Modelled from the spec: the declarations of \<^verbatim>\<open>Method\<close>, \<^verbatim>\<open>InstanceKlass\<close>,
  \<^verbatim>\<open>javaVFrame\<close> and \<^verbatim>\<open>vframeStream\<close> are not among the sources. A method carries what
  the walker asks of it; an execution frame exposes its method (maybe none), its bytecode
  offset, the continuation it runs in, whether it is the entry frame of a continuation,
  and its local variable slots, operand-stack slots and held locks. \<open>vf_fr\<close> is the
  address of the activation, which tells two activations of one method apart. A stack
  is the list of its frames, top frame first: the sender of a frame is the next element.
\<close>

record InstanceKlass =
  klass_ptr :: nat
  klass_super :: nat
  java_mirror :: oop

record Method =
  method_ptr :: nat
  external_name :: string
  method_holder :: InstanceKlass
  is_hidden :: bool
  caller_sensitive :: bool
  is_continuation_enter_intrinsic :: bool

record MonitorInfo =
  owner :: oop

record vframe =
  vf_fr :: nat
  vf_method :: "Method option"
  vf_bci :: int
  vf_continuation :: oop
  vf_is_continuation_entry_frame :: bool
  vf_locals :: StackValueCollection
  vf_expressions :: StackValueCollection
  vf_monitors :: "MonitorInfo list"
  vf_is_interpreted_frame :: bool
  vf_is_compiled_frame :: bool

text \<open>
  The \<^verbatim>\<open>int mode\<close> of \<^verbatim>\<open>fill_live_stackframe\<close>: 0, \<^verbatim>\<open>MODE_INTERPRETED\<close> or
  \<^verbatim>\<open>MODE_COMPILED\<close> (the two constants are declared in the absent header).
\<close>

datatype frame_mode = MODE_0 | MODE_INTERPRETED | MODE_COMPILED

text \<open>
  Modelled from the spec: \<^verbatim>\<open>java_lang_StackFrameInfo\<close> and
  \<^verbatim>\<open>java_lang_LiveStackFrameInfo\<close> (javaClasses.cpp) are not among the sources. A
  decoded frame record holds the method identity, the bytecode offset, the owning
  continuation and, for a live record, the boxed locals, operands and monitors. The
  records live in the Java heap and the buffer holds references to them.
\<close>

record StackFrameInfo =
  sfi_method :: "Method option"
  sfi_bci :: int
  sfi_cont :: oop
  sfi_locals :: "slot_object list option"
  sfi_operands :: "slot_object list option"
  sfi_monitors :: "oop list option"
  sfi_mode :: "frame_mode option"

type_synonym heap = "oop \<Rightarrow> StackFrameInfo option"

text \<open>
  The output buffer is an object array, a list of references; its handle may be null.
  \<^verbatim>\<open>obj_at\<close> and \<^verbatim>\<open>obj_at_put\<close> check the index.
\<close>

type_synonym objArray = "oop list"
type_synonym objArrayHandle = "objArray option"

definition obj_at :: "objArray \<Rightarrow> int \<Rightarrow> throwable + oop" where
  "obj_at a i =
     (if 0 \<le> i \<and> i < int (length a) then Inr (a ! nat i)
      else Inl (Fatal ''objArrayOop::obj_at: index out of bounds''))"

definition obj_at_put :: "objArray \<Rightarrow> int \<Rightarrow> oop \<Rightarrow> throwable + objArray" where
  "obj_at_put a i v =
     (if 0 \<le> i \<and> i < int (length a) then Inr (a[nat i := v])
      else Inl (Fatal ''objArrayOop::obj_at_put: index out of bounds''))"

text \<open>Modelled from the spec: slot 0 of the buffer is reserved for the guard.\<close>

definition magic_pos :: int where
  "magic_pos = 0"

subsection \<open>The VM around the walker\<close>

text \<open>
  What the walker takes from the rest of the VM and what is declared in headers that are
  not among the sources, as parameters: the flag \<^verbatim>\<open>ShowHiddenFrames\<close>, the three tests
  of the walking mode, the two classes of the walking API, the fields of a continuation
  object, \<^verbatim>\<open>Continuation::is_scope_bottom\<close>, the frames of a continuation
  (\<^verbatim>\<open>Continuation::last_java_vframe\<close>) and the size of the buffer that \<^verbatim>\<open>err_msg\<close>
  formats a message into (\<^verbatim>\<open>FormatBufferBase::BufferSize\<close>).
\<close>

record jvm =
  ShowHiddenFrames :: bool
  skip_hidden_frames :: "jlong \<Rightarrow> bool"
  get_caller_class :: "jlong \<Rightarrow> bool"
  need_method_info :: "jlong \<Rightarrow> bool"
  StackWalker_klass :: nat
  AbstractStackWalker_klass :: nat
  Continuation_scope :: "oop \<Rightarrow> oop"
  Continuation_parent :: "oop \<Rightarrow> oop"
  is_scope_bottom :: "oop \<Rightarrow> vframe \<Rightarrow> bool"
  last_java_vframe :: "oop \<Rightarrow> vframe list"
  BufferSize :: nat

record JavaThread =
  thread_ptr :: nat
  threadObj :: oop

text \<open>
  The message of the exception that \<^verbatim>\<open>fill_in_frames\<close> throws at a caller-sensitive
  method: the format string of the source with the external name of the method between
  the two quotes, as far as it fits into the buffer of \<^verbatim>\<open>err_msg\<close> with the
  terminating zero.
\<close>

definition caller_sensitive_message :: "jvm \<Rightarrow> Method \<Rightarrow> string" where
  "caller_sensitive_message vm m =
     take (BufferSize vm - 1)
       (''StackWalker::getCallerClass called from @CallerSensitive '' @ CHR 0x27 #
        external_name m @ CHR 0x27 # '' method'')"

abbreviation UnsupportedCallerSensitive :: "jvm \<Rightarrow> Method \<Rightarrow> throwable" where
  "UnsupportedCallerSensitive vm m \<equiv> UnsupportedOperationException (caller_sensitive_message vm m)"

subsection \<open>Frame streams\<close>

text \<open>
  A \<^verbatim>\<open>BaseFrameStream\<close> has the fields \<^verbatim>\<open>_thread\<close>, \<^verbatim>\<open>_continuation\<close> and
  \<^verbatim>\<open>_anchor\<close>; \<open>s_kind\<close> is the part of the subclass: a \<^verbatim>\<open>JavaFrameStream\<close> has
  \<^verbatim>\<open>_vfst\<close> and \<^verbatim>\<open>_need_method_info\<close>, a \<^verbatim>\<open>LiveFrameStream\<close> has \<^verbatim>\<open>_jvf\<close>,
  \<^verbatim>\<open>_cont_scope\<close> and \<^verbatim>\<open>_cont\<close>. \<^verbatim>\<open>_vfst\<close> is the list of the frames from the
  current one on, empty at the end; \<^verbatim>\<open>_jvf\<close> is the current frame with its senders,
  empty for \<^verbatim>\<open>NULL\<close>.
\<close>

datatype stream_kind =
    JavaFrameStream "vframe list" bool
  | LiveFrameStream "vframe list" oop oop

record BaseFrameStream =
  s_thread :: JavaThread
  s_continuation :: oop
  s_anchor :: jlong
  s_kind :: stream_kind

text \<open>
  Modelled from the spec: the accessors of the streams are declared in stackwalk.hpp,
  which is not among the sources. A cursor is exhausted when it has no current frame, and
  it reads the method, the bytecode offset and the continuation of its current frame; the
  live cursor reads its active continuation reference.
\<close>

definition cur_frames :: "BaseFrameStream \<Rightarrow> vframe list" where
  "cur_frames s = (case s_kind s of JavaFrameStream v _ \<Rightarrow> v | LiveFrameStream j _ _ \<Rightarrow> j)"

definition at_end :: "BaseFrameStream \<Rightarrow> bool" where
  "at_end s = (cur_frames s = [])"

definition stream_method :: "BaseFrameStream \<Rightarrow> Method option" where
  "stream_method s = (case cur_frames s of [] \<Rightarrow> None | f # _ \<Rightarrow> vf_method f)"

definition bci :: "BaseFrameStream \<Rightarrow> int" where
  "bci s = (case cur_frames s of [] \<Rightarrow> 0 | f # _ \<Rightarrow> vf_bci f)"

definition cont :: "BaseFrameStream \<Rightarrow> oop" where
  "cont s =
     (case s_kind s of
        JavaFrameStream v _ \<Rightarrow> (case v of [] \<Rightarrow> NULL | f # _ \<Rightarrow> vf_continuation f)
      | LiveFrameStream _ _ c \<Rightarrow> c)"

text \<open>
  \<^verbatim>\<open>JavaFrameStream::next\<close>. The test of the method is made on the frame that the
  stream has moved to; when the stream has reached the end there is no such frame and the
  model ends the step there.
\<close>

definition JavaFrameStream_next :: "vframe list \<Rightarrow> throwable + vframe list" where
  "JavaFrameStream_next v =
     (case v of
        [] \<Rightarrow> Inl (Fatal ''vframeStream::next at end'')
      | f # v1 \<Rightarrow>
          (case v1 of
             [] \<Rightarrow> Inr []
           | g # v2 \<Rightarrow>
               (case vf_method g of
                  None \<Rightarrow> Inl (Fatal ''NULL method'')
                | Some m \<Rightarrow> if is_continuation_enter_intrinsic m then Inr v2 else Inr v1)))"

text \<open>
  \<^verbatim>\<open>LiveFrameStream::next\<close>: the new \<^verbatim>\<open>_jvf\<close> and the new \<^verbatim>\<open>_cont\<close>.
  \<open>java_sender_step\<close> is its end, the assertion and the move to the sender.
\<close>

definition java_sender_step ::
  "jvm \<Rightarrow> oop \<Rightarrow> vframe \<Rightarrow> vframe list \<Rightarrow> oop \<Rightarrow> throwable + vframe list \<times> oop" where
  "java_sender_step vm cont_scope f sender cont1 =
     (if is_scope_bottom vm cont_scope f then Inl (Fatal ''is_scope_bottom'')
      else Inr (sender, cont1))"

definition LiveFrameStream_next ::
  "jvm \<Rightarrow> vframe list \<Rightarrow> oop \<Rightarrow> oop \<Rightarrow> throwable + vframe list \<times> oop" where
  "LiveFrameStream_next vm jvf cont_scope cont0 =
     (if \<not> (cont_scope = NULL \<or> cont0 \<noteq> NULL) then Inl (Fatal ''must be'')
      else case jvf of
        [] \<Rightarrow> Inl (Fatal ''NULL _jvf'')
      | f # sender \<Rightarrow>
          if cont0 \<noteq> NULL \<and> vf_is_continuation_entry_frame f then
            let scope = Continuation_scope vm cont0;
                cont1 = Continuation_parent vm cont0
            in if cont_scope \<noteq> NULL \<and> scope = cont_scope then Inr ([], cont1)
               else java_sender_step vm cont_scope f sender cont1
          else java_sender_step vm cont_scope f sender cont0)"

definition "next" :: "jvm \<Rightarrow> BaseFrameStream \<Rightarrow> throwable + BaseFrameStream" where
  "next vm s =
     (case s_kind s of
        JavaFrameStream v nmi \<Rightarrow>
          (case JavaFrameStream_next v of
             Inl e \<Rightarrow> Inl e
           | Inr v' \<Rightarrow> Inr (s\<lparr>s_kind := JavaFrameStream v' nmi\<rparr>))
      | LiveFrameStream jvf cont_scope cont0 \<Rightarrow>
          (case LiveFrameStream_next vm jvf cont_scope cont0 of
             Inl e \<Rightarrow> Inl e
           | Inr (jvf', cont1) \<Rightarrow> Inr (s\<lparr>s_kind := LiveFrameStream jvf' cont_scope cont1\<rparr>)))"

text \<open>
  \<^verbatim>\<open>set_continuation\<close> of the two streams. The base class stores through the handle
  \<^verbatim>\<open>_continuation\<close>, which has no slot to store to when the stream was made without a
  continuation.
\<close>

definition set_continuation :: "jvm \<Rightarrow> BaseFrameStream \<Rightarrow> oop \<Rightarrow> throwable + BaseFrameStream" where
  "set_continuation vm s c =
     (if s_continuation s = NULL then Inl (Fatal ''null handle'')
      else let s1 = s\<lparr>s_continuation := c\<rparr>
           in case s_kind s1 of
                JavaFrameStream _ nmi \<Rightarrow>
                  Inr (s1\<lparr>s_kind := JavaFrameStream (last_java_vframe vm (s_continuation s1)) nmi\<rparr>)
              | LiveFrameStream _ cont_scope _ \<Rightarrow>
                  Inr (s1\<lparr>s_kind := LiveFrameStream (last_java_vframe vm (s_continuation s1))
                                      cont_scope (s_continuation s1)\<rparr>))"

subsection \<open>The guard\<close>

text \<open>
  The stream objects live in the memory of the VM, each at its address;
  \<^verbatim>\<open>address_value()\<close> is that address, so the operations of the guard take the address
  \<open>this\<close> of the stream beside its fields.
\<close>

definition check_magic :: "jlong \<Rightarrow> BaseFrameStream \<Rightarrow> objArray \<Rightarrow> throwable + bool" where
  "check_magic this s frames_array =
     (case obj_at frames_array magic_pos of
        Inl e \<Rightarrow> Inl e
      | Inr m1 \<Rightarrow> Inr (m1 = threadObj (s_thread s) \<and> s_anchor s = this))"

definition setup_magic_on_entry ::
  "jlong \<Rightarrow> BaseFrameStream \<Rightarrow> objArray \<Rightarrow> throwable + BaseFrameStream \<times> objArray" where
  "setup_magic_on_entry this s frames_array =
     (case obj_at_put frames_array magic_pos (threadObj (s_thread s)) of
        Inl e \<Rightarrow> Inl e
      | Inr a \<Rightarrow>
          let s1 = s\<lparr>s_anchor := this\<rparr>
          in case check_magic this s1 a of
               Inl e \<Rightarrow> Inl e
             | Inr ok \<Rightarrow> if ok then Inr (s1, a) else Inl (Fatal ''invalid magic''))"

definition cleanup_magic_on_exit ::
  "jlong \<Rightarrow> BaseFrameStream \<Rightarrow> objArray \<Rightarrow> throwable + bool \<times> BaseFrameStream \<times> objArray" where
  "cleanup_magic_on_exit this s frames_array =
     (case check_magic this s frames_array of
        Inl e \<Rightarrow> Inl e
      | Inr ok \<Rightarrow>
          (case obj_at_put frames_array magic_pos NULL of
             Inl e \<Rightarrow> Inl e
           | Inr a \<Rightarrow> Inr (ok, s\<lparr>s_anchor := 0\<rparr>, a)))"

text \<open>
  Modelled from the spec: \<^verbatim>\<open>is_valid_in\<close> is declared in stackwalk.hpp, which is not
  among the sources; it compares the thread of the stream with the calling thread and
  then checks the guard.
\<close>

definition is_valid_in ::
  "jlong \<Rightarrow> BaseFrameStream \<Rightarrow> JavaThread \<Rightarrow> objArray \<Rightarrow> throwable + bool" where
  "is_valid_in this s thread frames_array =
     (if s_thread s = thread then check_magic this s frames_array else Inr False)"

text \<open>
  The state that the operations of the walker share: the stream objects by address, the
  decoded frame records of the Java heap, and the trace of what the walker did to its
  collaborators: the flushes of the deferred processing of the stack and the calls of
  \<^verbatim>\<open>fill_frame\<close>, each with the frame it decodes and the continuation it reports.
\<close>

datatype event = FinishProcessing | FillFrame vframe oop

record world =
  streams :: "jlong \<Rightarrow> BaseFrameStream option"
  heap :: heap
  trace :: "event list"

text \<open>
  \<^verbatim>\<open>BaseFrameStream::from_current\<close>. The token is cast to a pointer to a stream; the
  result is that pointer or \<^verbatim>\<open>NULL\<close>. A token that is not the address of any stream
  object has no defined behaviour.
\<close>

definition from_current ::
  "world \<Rightarrow> JavaThread \<Rightarrow> jlong \<Rightarrow> objArrayHandle \<Rightarrow> throwable + jlong option" where
  "from_current w thread magic frames_array =
     (case frames_array of
        None \<Rightarrow> Inl (Fatal ''null frames_array'')
      | Some a \<Rightarrow>
          (case obj_at a magic_pos of
             Inl e \<Rightarrow> Inl e
           | Inr m1 \<Rightarrow>
               if m1 \<noteq> threadObj thread then Inr None
               else if magic = 0 then Inr None
               else (case streams w magic of
                       None \<Rightarrow> Inl (Fatal ''not a stream'')
                     | Some stream \<Rightarrow>
                         (case is_valid_in magic stream thread a of
                            Inl e \<Rightarrow> Inl e
                          | Inr valid \<Rightarrow> if \<not> valid then Inr None else Inr (Some magic)))))"

subsection \<open>Decoding a frame\<close>

definition monitors_to_object_array :: "MonitorInfo list \<Rightarrow> oop list" where
  "monitors_to_object_array monitors = map owner monitors"

text \<open>
  A store to a field of the record that a reference points to. \<^verbatim>\<open>fill_stackframe\<close>
  is the first to use the reference, and there is no record to fill behind \<^verbatim>\<open>NULL\<close> or
  behind a reference to something else.
\<close>

definition put_field :: "heap \<Rightarrow> oop \<Rightarrow> (StackFrameInfo \<Rightarrow> StackFrameInfo) \<Rightarrow> heap" where
  "put_field h stackFrame f = h(stackFrame := map_option f (h stackFrame))"

definition fill_stackframe ::
  "heap \<Rightarrow> BaseFrameStream \<Rightarrow> oop \<Rightarrow> Method \<Rightarrow> throwable option \<times> heap" where
  "fill_stackframe h s stackFrame m =
     (if stackFrame = NULL \<or> h stackFrame = None then (Some (Fatal ''no StackFrameInfo''), h)
      else (None, put_field h stackFrame
                    (\<lambda>r. r\<lparr>sfi_method := Some m, sfi_bci := bci s, sfi_cont := cont s\<rparr>)))"

definition frame_mode_of :: "vframe \<Rightarrow> frame_mode" where
  "frame_mode_of jvf =
     (if vf_is_interpreted_frame jvf then MODE_INTERPRETED
      else if vf_is_compiled_frame jvf then MODE_COMPILED
      else MODE_0)"

definition fill_live_stackframe ::
  "heap \<Rightarrow> BaseFrameStream \<Rightarrow> oop \<Rightarrow> Method \<Rightarrow> throwable option \<times> heap" where
  "fill_live_stackframe h s stackFrame m =
     (case fill_stackframe h s stackFrame m of
        (Some e, h1) \<Rightarrow> (Some e, h1)
      | (None, h1) \<Rightarrow>
          (case cur_frames s of
             [] \<Rightarrow> (None, h1)
           | jvf # _ \<Rightarrow>
               (case (if vf_locals jvf \<noteq> [] then values_to_object_array (vf_locals jvf)
                      else Inr []) of
                  Inl e \<Rightarrow> (Some e, h1)
                | Inr locals_h \<Rightarrow>
                    let h2 = (if vf_locals jvf \<noteq> []
                              then put_field h1 stackFrame (\<lambda>r. r\<lparr>sfi_locals := Some locals_h\<rparr>)
                              else h1)
                    in (case (if vf_expressions jvf \<noteq> []
                              then values_to_object_array (vf_expressions jvf) else Inr []) of
                          Inl e \<Rightarrow> (Some e, h2)
                        | Inr expressions_h \<Rightarrow>
                            let h3 = (if vf_expressions jvf \<noteq> []
                                      then put_field h2 stackFrame
                                             (\<lambda>r. r\<lparr>sfi_operands := Some expressions_h\<rparr>)
                                      else h2);
                                h4 = (if length (vf_monitors jvf) > 0
                                      then put_field h3 stackFrame
                                             (\<lambda>r. r\<lparr>sfi_monitors :=
                                                Some (monitors_to_object_array (vf_monitors jvf))\<rparr>)
                                      else h3)
                            in (None, put_field h4 stackFrame
                                        (\<lambda>r. r\<lparr>sfi_mode := Some (frame_mode_of jvf)\<rparr>))))))"

text \<open>
  \<^verbatim>\<open>fill_frame\<close> of the two streams: what was thrown if anything, the buffer and the
  heap.
\<close>

definition fill_frame ::
  "BaseFrameStream \<Rightarrow> int \<Rightarrow> objArray \<Rightarrow> heap \<Rightarrow> Method \<Rightarrow> throwable option \<times> objArray \<times> heap" where
  "fill_frame s index frames_array h m =
     (case s_kind s of
        LiveFrameStream _ _ _ \<Rightarrow>
          (case obj_at frames_array index of
             Inl e \<Rightarrow> (Some e, frames_array, h)
           | Inr stackFrame \<Rightarrow>
               (case fill_live_stackframe h s stackFrame m of (r, h') \<Rightarrow> (r, frames_array, h')))
      | JavaFrameStream _ need_info \<Rightarrow>
          if need_info then
            (case obj_at frames_array index of
               Inl e \<Rightarrow> (Some e, frames_array, h)
             | Inr stackFrame \<Rightarrow>
                 (case fill_stackframe h s stackFrame m of (r, h') \<Rightarrow> (r, frames_array, h')))
          else
            (case obj_at_put frames_array index (java_mirror (method_holder m)) of
               Inl e \<Rightarrow> (Some e, frames_array, h)
             | Inr a \<Rightarrow> (None, a, h)))"

subsection \<open>Filling a batch\<close>

text \<open>
  The variables of the loop of \<^verbatim>\<open>StackWalk::fill_in_frames\<close>: the stream and the
  buffer (both passed by reference), the heap, \<^verbatim>\<open>end_index\<close> (a reference parameter),
  \<^verbatim>\<open>frames_decoded\<close> and the trace.
\<close>

record fill_state =
  fs_stream :: BaseFrameStream
  fs_frames_array :: objArray
  fs_heap :: heap
  fs_end_index :: int
  fs_frames_decoded :: int
  fs_trace :: "event list"

text \<open>
  One run of the body of the loop, at a stream that is not at its end. It ends in
  \<^verbatim>\<open>continue\<close> or at the end of the body, both of which go on with \<^verbatim>\<open>stream.next()\<close>,
  in \<^verbatim>\<open>break\<close>, or in an exception. The two counters are incremented as integers:
  a frame is counted once it has been written to the slot \<^verbatim>\<open>index\<close> of the buffer,
  and the index of a slot of a Java array is below the greatest \<^verbatim>\<open>int\<close>, so an
  increment leaves the range of \<^verbatim>\<open>int\<close> only in a run of the body that ends in an
  exception, after which the source reads neither counter.
\<close>

datatype body_end = Continue fill_state | Break fill_state | Throw throwable fill_state

definition fill_body :: "jvm \<Rightarrow> jlong \<Rightarrow> int \<Rightarrow> int \<Rightarrow> fill_state \<Rightarrow> body_end" where
  "fill_body vm mode max_nframes start_index st =
     (case stream_method (fs_stream st) of
        None \<Rightarrow> Continue st
      | Some m \<Rightarrow>
          if \<not> ShowHiddenFrames vm \<and> (skip_hidden_frames vm mode \<or> get_caller_class vm mode)
             \<and> is_hidden m
          then Continue st
          else
            let index = fs_end_index st;
                st1 = st\<lparr>fs_end_index := fs_end_index st + 1\<rparr>
            in if \<not> need_method_info vm mode \<and> get_caller_class vm mode
                  \<and> index = start_index \<and> caller_sensitive m
               then Throw (UnsupportedCallerSensitive vm m) st1
               else
                 (case fill_frame (fs_stream st1) index (fs_frames_array st1) (fs_heap st1) m of
                    (r, a, h) \<Rightarrow>
                      let st2 = st1\<lparr>fs_frames_array := a, fs_heap := h,
                                    fs_trace := fs_trace st1 @
                                      [FillFrame (hd (cur_frames (fs_stream st1))) (cont (fs_stream st1))]\<rparr>
                      in (case r of
                            Some e \<Rightarrow> Throw e st2
                          | None \<Rightarrow>
                              let st3 = st2\<lparr>fs_frames_decoded := fs_frames_decoded st2 + 1\<rparr>
                              in if fs_frames_decoded st3 \<ge> max_nframes then Break st3
                                 else Continue st3)))"

lemma fill_body_stream:
  "fill_body vm mode max_nframes start_index st = Continue st' \<Longrightarrow> fs_stream st' = fs_stream st"
  by (auto simp: fill_body_def Let_def split: option.splits if_splits prod.splits)

lemma next_shorter:
  "next vm s = Inr s' \<Longrightarrow> length (cur_frames s') < length (cur_frames s)"
  by (auto simp: next_def cur_frames_def JavaFrameStream_next_def LiveFrameStream_next_def
        java_sender_step_def Let_def
      split: stream_kind.splits sum.splits list.splits option.splits if_splits)

function fill_loop ::
  "jvm \<Rightarrow> jlong \<Rightarrow> int \<Rightarrow> int \<Rightarrow> fill_state \<Rightarrow> throwable option \<times> fill_state" where
  "fill_loop vm mode max_nframes start_index st =
     (if at_end (fs_stream st) then (None, st)
      else case fill_body vm mode max_nframes start_index st of
             Throw e st' \<Rightarrow> (Some e, st')
           | Break st' \<Rightarrow> (None, st')
           | Continue st' \<Rightarrow>
               (case next vm (fs_stream st') of
                  Inl e \<Rightarrow> (Some e, st')
                | Inr s' \<Rightarrow> fill_loop vm mode max_nframes start_index (st'\<lparr>fs_stream := s'\<rparr>)))"
  by pat_completeness auto
termination
  by (relation "measure (\<lambda>(vm, mode, max_nframes, start_index, st). length (cur_frames (fs_stream st)))")
     (auto dest!: fill_body_stream next_shorter)

declare fill_loop.simps [simp del]

text \<open>
  \<^verbatim>\<open>StackWalk::fill_in_frames\<close>: the number of frames decoded or what was thrown, with
  the stream, the buffer, the heap, \<^verbatim>\<open>end_index\<close> and the trace as the call leaves them.
\<close>

definition fill_in_frames ::
  "jvm \<Rightarrow> jlong \<Rightarrow> BaseFrameStream \<Rightarrow> int \<Rightarrow> int \<Rightarrow> objArray \<Rightarrow> int \<Rightarrow> heap \<Rightarrow> event list
     \<Rightarrow> (throwable + int) \<times> fill_state" where
  "fill_in_frames vm mode stream max_nframes start_index frames_array end_index h tr =
     (let st = \<lparr>fs_stream = stream, fs_frames_array = frames_array, fs_heap = h,
                fs_end_index = end_index, fs_frames_decoded = 0, fs_trace = tr\<rparr>
      in if \<not> max_nframes > 0 then (Inl (Fatal ''invalid max_nframes''), st)
         else if \<not> jint_add start_index max_nframes \<le> int (length frames_array) then (Inl (Fatal ''oob''), st)
         else (case fill_loop vm mode max_nframes start_index st of
                 (Some e, st') \<Rightarrow> (Inl e, st')
               | (None, st') \<Rightarrow> (Inr (fs_frames_decoded st'), st')))"

subsection \<open>The entry points\<close>

text \<open>
  \<^verbatim>\<open>StackWalk::fetchNextBatch\<close>: the end index or what was thrown, with the state and
  the buffer as the call leaves them.
\<close>

definition fetchNextBatch ::
  "jvm \<Rightarrow> JavaThread \<Rightarrow> jlong \<Rightarrow> jlong \<Rightarrow> int \<Rightarrow> int \<Rightarrow> objArrayHandle \<Rightarrow> world
     \<Rightarrow> (throwable + int) \<times> world \<times> objArrayHandle" where
  "fetchNextBatch vm jt mode magic frame_count start_index frames_array w =
     (case from_current w jt magic frames_array of
        Inl e \<Rightarrow> (Inl e, w, frames_array)
      | Inr None \<Rightarrow> (Inl CorruptedBuffer, w, frames_array)
      | Inr (Some existing_stream) \<Rightarrow>
          (case frames_array of
             None \<Rightarrow> (Inl NullBuffer, w, frames_array)
           | Some a \<Rightarrow>
               let end_index = start_index
               in if frame_count \<le> 0 then (Inr end_index, w, frames_array)
                  else
                    let count = jint_add frame_count start_index
                    in if \<not> int (length a) \<ge> count
                       then (Inl (Fatal ''not enough space in buffers''), w, frames_array)
                       else
                         (case streams w existing_stream of
                            None \<Rightarrow> (Inl (Fatal ''not a stream''), w, frames_array)
                          | Some stream \<Rightarrow>
                              if \<not> at_end stream then
                                let w1 = w\<lparr>trace := trace w @ [FinishProcessing]\<rparr>
                                in (case next vm stream of
                                      Inl e \<Rightarrow> (Inl e, w1, frames_array)
                                    | Inr stream1 \<Rightarrow>
                                        if \<not> at_end stream1 then
                                          (case fill_in_frames vm mode stream1 frame_count start_index
                                                  a end_index (heap w1) (trace w1) of
                                             (r, st) \<Rightarrow>
                                               let w2 = w1\<lparr>streams := (streams w1)(existing_stream \<mapsto> fs_stream st),
                                                            heap := fs_heap st, trace := fs_trace st\<rparr>
                                               in (case r of
                                                     Inl e \<Rightarrow> (Inl e, w2, Some (fs_frames_array st))
                                                   | Inr n \<Rightarrow>
                                                       if n < 1
                                                       then (Inl LaterDecodeFailure, w2, Some (fs_frames_array st))
                                                       else (Inr (fs_end_index st), w2, Some (fs_frames_array st))))
                                        else (Inr end_index,
                                              w1\<lparr>streams := (streams w1)(existing_stream \<mapsto> stream1)\<rparr>,
                                              frames_array))
                              else (Inr end_index, w, frames_array))))"

text \<open>\<^verbatim>\<open>StackWalk::setContinuation\<close>.\<close>

definition setContinuation ::
  "jvm \<Rightarrow> JavaThread \<Rightarrow> jlong \<Rightarrow> objArrayHandle \<Rightarrow> oop \<Rightarrow> world \<Rightarrow> throwable option \<times> world" where
  "setContinuation vm jt magic frames_array c w =
     (case frames_array of
        None \<Rightarrow> (Some NullBuffer, w)
      | Some a \<Rightarrow>
          (case from_current w jt magic frames_array of
             Inl e \<Rightarrow> (Some e, w)
           | Inr None \<Rightarrow> (Some CorruptedBuffer, w)
           | Inr (Some existing_stream) \<Rightarrow>
               (case streams w existing_stream of
                  None \<Rightarrow> (Some (Fatal ''not a stream''), w)
                | Some stream \<Rightarrow>
                    (case set_continuation vm stream c of
                       Inl e \<Rightarrow> (Some e, w)
                     | Inr stream1 \<Rightarrow>
                         (None, w\<lparr>streams := (streams w)(existing_stream \<mapsto> stream1)\<rparr>)))))"

text \<open>
  Modelled from the spec: the orchestration logic
  (\<^verbatim>\<open>AbstractStackWalker::doStackWalk\<close>, Java code) is not among the sources. It
  receives the buffer and the token and, before it returns a result or leaves an
  exception pending, may call back into \<^verbatim>\<open>fetchNextBatch\<close> and \<^verbatim>\<open>setContinuation\<close>
  any number of times, with any token, and may store into the buffer. It runs on the
  thread of the walk and may catch what its calls throw, so the run goes on after a call
  that failed.
\<close>

datatype upcall =
    CallFetchNextBatch jlong jlong int int
  | CallSetContinuation jlong oop
  | StoreElement int oop

record orchestration =
  upcalls :: "upcall list"
  outcome :: "throwable + oop"

fun run_upcall :: "jvm \<Rightarrow> JavaThread \<Rightarrow> upcall \<Rightarrow> world \<times> objArray \<Rightarrow> world \<times> objArray" where
  "run_upcall vm jt (CallFetchNextBatch mode magic frame_count start_index) (w, a) =
     (case fetchNextBatch vm jt mode magic frame_count start_index (Some a) w of
        (r, w', a') \<Rightarrow> (w', case a' of None \<Rightarrow> a | Some x \<Rightarrow> x))"
| "run_upcall vm jt (CallSetContinuation magic c) (w, a) =
     (case setContinuation vm jt magic (Some a) c w of (r, w') \<Rightarrow> (w', a))"
| "run_upcall vm jt (StoreElement i v) (w, a) =
     (case obj_at_put a i v of Inl e \<Rightarrow> (w, a) | Inr a' \<Rightarrow> (w, a'))"

fun run_upcalls :: "jvm \<Rightarrow> JavaThread \<Rightarrow> upcall list \<Rightarrow> world \<times> objArray \<Rightarrow> world \<times> objArray" where
  "run_upcalls vm jt [] wa = wa"
| "run_upcalls vm jt (u # us) wa = run_upcalls vm jt us (run_upcall vm jt u wa)"

definition doStackWalk ::
  "jvm \<Rightarrow> JavaThread \<Rightarrow> orchestration \<Rightarrow> world \<times> objArray \<Rightarrow> (throwable + oop) \<times> world \<times> objArray" where
  "doStackWalk vm jt stackStream wa =
     (case run_upcalls vm jt (upcalls stackStream) wa of (w', a') \<Rightarrow> (outcome stackStream, w', a'))"

text \<open>
  The first loop of \<^verbatim>\<open>StackWalk::fetchFirstBatch\<close>, over the frames of the walking API
  itself, and its second loop, over the frames that the caller asked to skip.
\<close>

function skip_walker_frames :: "jvm \<Rightarrow> BaseFrameStream \<Rightarrow> throwable + BaseFrameStream" where
  "skip_walker_frames vm s =
     (if at_end s then Inr s
      else case stream_method s of
             None \<Rightarrow> Inl (Fatal ''NULL method'')
           | Some m \<Rightarrow>
               let ik = method_holder m
               in if klass_ptr ik \<noteq> StackWalker_klass vm
                     \<and> klass_ptr ik \<noteq> AbstractStackWalker_klass vm
                     \<and> klass_super ik \<noteq> AbstractStackWalker_klass vm
                  then Inr s
                  else (case next vm s of
                          Inl e \<Rightarrow> Inl e
                        | Inr s' \<Rightarrow> skip_walker_frames vm s'))"
  by pat_completeness auto
termination
  by (relation "measure (\<lambda>(vm, s). length (cur_frames s))") (auto dest!: next_shorter)

declare skip_walker_frames.simps [simp del]

function skip_requested_frames ::
  "jvm \<Rightarrow> int \<Rightarrow> int \<Rightarrow> BaseFrameStream \<Rightarrow> throwable + BaseFrameStream" where
  "skip_requested_frames vm skip_frames n s =
     (if n < skip_frames \<and> \<not> at_end s
      then (case next vm s of
              Inl e \<Rightarrow> Inl e
            | Inr s' \<Rightarrow> skip_requested_frames vm skip_frames (n + 1) s')
      else Inr s)"
  by pat_completeness auto
termination
  by (relation "measure (\<lambda>(vm, skip_frames, n, s). nat (skip_frames - n))") auto

declare skip_requested_frames.simps [simp del]

text \<open>
  \<^verbatim>\<open>StackWalk::fetchFirstBatch\<close> up to the call of the orchestration logic: the two
  loops and the first fill. The result is \<^verbatim>\<open>end_index\<close>.
\<close>

definition fetchFirstBatch_fill ::
  "jvm \<Rightarrow> BaseFrameStream \<Rightarrow> jlong \<Rightarrow> int \<Rightarrow> int \<Rightarrow> int \<Rightarrow> objArray \<Rightarrow> heap \<Rightarrow> event list
     \<Rightarrow> (throwable + int) \<times> fill_state" where
  "fetchFirstBatch_fill vm stream mode skip_frames frame_count start_index frames_array h tr =
     (let st0 = \<lparr>fs_stream = stream, fs_frames_array = frames_array, fs_heap = h,
                 fs_end_index = start_index, fs_frames_decoded = 0, fs_trace = tr\<rparr>
      in case skip_walker_frames vm stream of
           Inl e \<Rightarrow> (Inl e, st0)
         | Inr stream1 \<Rightarrow>
             (case skip_requested_frames vm skip_frames 0 stream1 of
                Inl e \<Rightarrow> (Inl e, st0\<lparr>fs_stream := stream1\<rparr>)
              | Inr stream2 \<Rightarrow>
                  let end_index = start_index
                  in if \<not> at_end stream2 then
                       (case fill_in_frames vm mode stream2 frame_count start_index
                               frames_array end_index h tr of
                          (Inl e, st) \<Rightarrow> (Inl e, st)
                        | (Inr numFrames, st) \<Rightarrow>
                            if numFrames < 1 then (Inl DecodeFailure, st)
                            else (Inr (fs_end_index st), st))
                     else (Inr end_index, st0\<lparr>fs_stream := stream2\<rparr>)))"

text \<open>
  \<^verbatim>\<open>StackWalk::fetchFirstBatch\<close> on the stream at the address \<open>this\<close>: the result of
  the orchestration logic or what was thrown. Its caller \<^verbatim>\<open>StackWalk::walk\<close> has made
  the stream, from the stack of the thread or of a continuation, and has refused a null
  buffer, so the buffer is an array here.
\<close>

definition fetchFirstBatch ::
  "jvm \<Rightarrow> JavaThread \<Rightarrow> jlong \<Rightarrow> orchestration \<Rightarrow> jlong \<Rightarrow> int \<Rightarrow> int \<Rightarrow> int \<Rightarrow> objArray \<Rightarrow> world
     \<Rightarrow> (throwable + oop) \<times> world \<times> objArray" where
  "fetchFirstBatch vm jt this stackStream mode skip_frames frame_count start_index frames_array w =
     (case streams w this of
        None \<Rightarrow> (Inl (Fatal ''not a stream''), w, frames_array)
      | Some stream \<Rightarrow>
          (case fetchFirstBatch_fill vm stream mode skip_frames frame_count start_index
                  frames_array (heap w) (trace w) of
             (r, st) \<Rightarrow>
               let w1 = w\<lparr>streams := (streams w)(this \<mapsto> fs_stream st),
                            heap := fs_heap st, trace := fs_trace st\<rparr>
               in (case r of
                     Inl e \<Rightarrow> (Inl e, w1, fs_frames_array st)
                   | Inr end_index \<Rightarrow>
                       (case setup_magic_on_entry this (fs_stream st) (fs_frames_array st) of
                          Inl e \<Rightarrow> (Inl e, w1, fs_frames_array st)
                        | Inr (stream1, a1) \<Rightarrow>
                            (case doStackWalk vm jt stackStream
                                    (w1\<lparr>streams := (streams w1)(this \<mapsto> stream1)\<rparr>, a1) of
                               (result, w2, a2) \<Rightarrow>
                                 (case streams w2 this of
                                    None \<Rightarrow> (Inl (Fatal ''not a stream''), w2, a2)
                                  | Some stream2 \<Rightarrow>
                                      (case cleanup_magic_on_exit this stream2 a2 of
                                         Inl e \<Rightarrow> (Inl e, w2, a2)
                                       | Inr (ok, stream3, a3) \<Rightarrow>
                                           let w3 = w2\<lparr>streams := (streams w2)(this \<mapsto> stream3)\<rparr>
                                           in (case result of
                                                 Inl e \<Rightarrow> (Inl e, w3, a3)
                                               | Inr v \<Rightarrow>
                                                   if \<not> ok then (Inl CorruptedBufferOnExit, w3, a3)
                                                   else (Inr v, w3, a3)))))))))"

subsection \<open>Reading the loop\<close>

text \<open>
  Names for what the properties speak of. A frame is skipped when it has no method or,
  under the suppression of hidden frames, a hidden one. The fast path is the decoding
  of the declaring type only for \<^verbatim>\<open>getCallerClass\<close>. \<open>filled\<close> is the state of
  the loop after \<^verbatim>\<open>fill_frame\<close> has run for the current frame, \<open>end_state\<close> the
  state in which a run of the body ends, and \<open>decoded_frames\<close> the frames that the
  calls of \<^verbatim>\<open>fill_frame\<close> in a trace decode, in their order.
\<close>

definition skipped :: "jvm \<Rightarrow> jlong \<Rightarrow> BaseFrameStream \<Rightarrow> bool" where
  "skipped vm mode s =
     (case stream_method s of
        None \<Rightarrow> True
      | Some m \<Rightarrow> \<not> ShowHiddenFrames vm \<and> (skip_hidden_frames vm mode \<or> get_caller_class vm mode)
                  \<and> is_hidden m)"

definition fast_path :: "jvm \<Rightarrow> jlong \<Rightarrow> bool" where
  "fast_path vm mode = (\<not> need_method_info vm mode \<and> get_caller_class vm mode)"

definition filled :: "fill_state \<Rightarrow> objArray \<Rightarrow> heap \<Rightarrow> fill_state" where
  "filled st a h =
     st\<lparr>fs_end_index := fs_end_index st + 1, fs_frames_array := a, fs_heap := h,
        fs_trace := fs_trace st @ [FillFrame (hd (cur_frames (fs_stream st))) (cont (fs_stream st))]\<rparr>"

fun end_state :: "body_end \<Rightarrow> fill_state" where
  "end_state (Continue st) = st"
| "end_state (Break st) = st"
| "end_state (Throw e st) = st"

fun decoded_frames :: "event list \<Rightarrow> vframe list" where
  "decoded_frames [] = []"
| "decoded_frames (FinishProcessing # es) = decoded_frames es"
| "decoded_frames (FillFrame f c # es) = f # decoded_frames es"

text \<open>
  The two invariants of the loop that bound its effect. \<open>within a0 h0 e0 st\<close>: against
  the buffer \<open>a0\<close> and the heap \<open>h0\<close>, the state \<open>st\<close> differs only in the slots from
  \<open>e0\<close> up to its \<^verbatim>\<open>end_index\<close> and in the records that these slots of \<open>a0\<close> refer
  to. \<open>counted e0 mx n st\<close>: the count is below the limit \<open>mx\<close>, \<^verbatim>\<open>end_index\<close> is
  \<open>e0\<close> plus the count, and the count plus the frames still ahead is at most \<open>n\<close>.
\<close>

definition within :: "objArray \<Rightarrow> heap \<Rightarrow> int \<Rightarrow> fill_state \<Rightarrow> bool" where
  "within a0 h0 e0 st =
     (length (fs_frames_array st) = length a0 \<and> e0 \<le> fs_end_index st
      \<and> (\<forall>i < length a0. \<not> (e0 \<le> int i \<and> int i < fs_end_index st)
             \<longrightarrow> fs_frames_array st ! i = a0 ! i)
      \<and> (\<forall>ref. fs_heap st ref \<noteq> h0 ref
             \<longrightarrow> (\<exists>i < length a0. e0 \<le> int i \<and> int i < fs_end_index st \<and> ref = a0 ! i)))"

definition counted :: "int \<Rightarrow> int \<Rightarrow> nat \<Rightarrow> fill_state \<Rightarrow> bool" where
  "counted e0 mx n st =
     (0 \<le> fs_frames_decoded st \<and> fs_frames_decoded st < mx
      \<and> fs_end_index st = e0 + fs_frames_decoded st
      \<and> fs_frames_decoded st + int (length (cur_frames (fs_stream st))) \<le> int n)"

text \<open>
  \<open>skipped_frame\<close> is the test of a frame that \<open>skipped\<close> makes of the current frame
  of a stream. \<open>logged vm mode tr0 d0 exact st\<close>: since the trace \<open>tr0\<close> the loop has
  only recorded calls of \<^verbatim>\<open>fill_frame\<close>, none of them on a skipped frame, and (when
  \<open>exact\<close>) one for each frame it has counted since the count \<open>d0\<close>.
\<close>

definition skipped_frame :: "jvm \<Rightarrow> jlong \<Rightarrow> vframe \<Rightarrow> bool" where
  "skipped_frame vm mode f =
     (case vf_method f of
        None \<Rightarrow> True
      | Some m \<Rightarrow> \<not> ShowHiddenFrames vm \<and> (skip_hidden_frames vm mode \<or> get_caller_class vm mode)
                  \<and> is_hidden m)"

definition fills_only :: "jvm \<Rightarrow> jlong \<Rightarrow> event list \<Rightarrow> bool" where
  "fills_only vm mode evs = (\<forall>e \<in> set evs. \<exists>f c. e = FillFrame f c \<and> \<not> skipped_frame vm mode f)"

definition logged :: "jvm \<Rightarrow> jlong \<Rightarrow> event list \<Rightarrow> int \<Rightarrow> bool \<Rightarrow> fill_state \<Rightarrow> bool" where
  "logged vm mode tr0 d0 exact st =
     (\<exists>evs. fs_trace st = tr0 @ evs \<and> fills_only vm mode evs
        \<and> (exact \<longrightarrow> fs_frames_decoded st = d0 + int (length evs)))"

text \<open>
  A class-only cursor all of whose frames have a method: on such a cursor
  \<^verbatim>\<open>JavaFrameStream::next\<close> has nothing to dereference that is not there.
\<close>

definition java_frames_have_methods :: "BaseFrameStream \<Rightarrow> bool" where
  "java_frames_have_methods s =
     (case s_kind s of
        JavaFrameStream v _ \<Rightarrow> list_all (\<lambda>f. vf_method f \<noteq> None) v
      | LiveFrameStream _ _ _ \<Rightarrow> False)"

text \<open>
  The position of a walk against the stack \<open>S\<close> it started on and the trace \<open>T0\<close> it
  started with. \<open>advanced\<close>: the frames of the cursor are the rest of \<open>S\<close> after some
  frames \<open>P\<close>, and what has been decoded since \<open>T0\<close> is a subsequence of \<open>P\<close>: the
  cursor stands past every decoded frame. \<open>walked\<close>: the same with the current frame of
  the cursor added to \<open>P\<close>: the cursor may stand on the frame decoded last.
  \<open>decoded_tuples\<close> are the tuples of method, bytecode offset and continuation that a
  trace records.
\<close>

definition walked :: "vframe list \<Rightarrow> event list \<Rightarrow> BaseFrameStream \<Rightarrow> event list \<Rightarrow> bool" where
  "walked S T0 s tr =
     (\<exists>P evs. S = P @ cur_frames s \<and> tr = T0 @ evs
        \<and> subseq (decoded_frames evs) (P @ take 1 (cur_frames s)))"

definition advanced :: "vframe list \<Rightarrow> event list \<Rightarrow> BaseFrameStream \<Rightarrow> event list \<Rightarrow> bool" where
  "advanced S T0 s tr =
     (\<exists>P evs. S = P @ cur_frames s \<and> tr = T0 @ evs \<and> subseq (decoded_frames evs) P)"

fun decoded_tuples :: "event list \<Rightarrow> (Method option \<times> int \<times> oop) list" where
  "decoded_tuples [] = []"
| "decoded_tuples (FinishProcessing # es) = decoded_tuples es"
| "decoded_tuples (FillFrame f c # es) = (vf_method f, vf_bci f, c) # decoded_tuples es"

text \<open>
  The calls of the orchestration logic that keep to the walk of the cursor at \<open>this\<close>,
  each judged in the state in which it is made: a call of \<^verbatim>\<open>fetchNextBatch\<close> that
  presents the token of this cursor or, with any other token, decodes no frame (the token
  is refused, or the call has nothing to decode); a call of \<^verbatim>\<open>setContinuation\<close> that
  addresses another cursor or fails; any store into the buffer. A script is a walk of one
  cursor when each of its calls is such a call in the state that the calls before it
  have left, and \<open>walks_one_cursor\<close> says so of a call of \<^verbatim>\<open>fetchFirstBatch\<close>: it
  follows \<^verbatim>\<open>fetchFirstBatch\<close> to the state in which the orchestration logic is called.
\<close>

fun keeps_cursor :: "jvm \<Rightarrow> JavaThread \<Rightarrow> jlong \<Rightarrow> upcall \<Rightarrow> world \<times> objArray \<Rightarrow> bool" where
  "keeps_cursor vm jt this (CallFetchNextBatch mode magic frame_count start_index) (w, a) =
     (magic = this
      \<or> decoded_frames (trace (fst (snd (fetchNextBatch vm jt mode magic frame_count start_index
                                          (Some a) w))))
          = decoded_frames (trace w))"
| "keeps_cursor vm jt this (CallSetContinuation magic c) (w, a) =
     (magic \<noteq> this \<or> fst (setContinuation vm jt magic (Some a) c w) \<noteq> None)"
| "keeps_cursor vm jt this (StoreElement i v) (w, a) = True"

fun one_cursor_walk ::
  "jvm \<Rightarrow> JavaThread \<Rightarrow> jlong \<Rightarrow> upcall list \<Rightarrow> world \<times> objArray \<Rightarrow> bool" where
  "one_cursor_walk vm jt this [] wa = True"
| "one_cursor_walk vm jt this (u # us) wa =
     (keeps_cursor vm jt this u wa \<and> one_cursor_walk vm jt this us (run_upcall vm jt u wa))"

definition walks_one_cursor ::
  "jvm \<Rightarrow> JavaThread \<Rightarrow> jlong \<Rightarrow> orchestration \<Rightarrow> jlong \<Rightarrow> int \<Rightarrow> int \<Rightarrow> int \<Rightarrow> objArray \<Rightarrow> world
     \<Rightarrow> bool" where
  "walks_one_cursor vm jt this stackStream mode skip_frames frame_count start_index frames_array w =
     (case streams w this of
        None \<Rightarrow> True
      | Some stream \<Rightarrow>
          (case fetchFirstBatch_fill vm stream mode skip_frames frame_count start_index
                  frames_array (heap w) (trace w) of
             (r, st) \<Rightarrow>
               let w1 = w\<lparr>streams := (streams w)(this \<mapsto> fs_stream st),
                            heap := fs_heap st, trace := fs_trace st\<rparr>
               in (case r of
                     Inl e \<Rightarrow> True
                   | Inr end_index \<Rightarrow>
                       (case setup_magic_on_entry this (fs_stream st) (fs_frames_array st) of
                          Inl e \<Rightarrow> True
                        | Inr (stream1, a1) \<Rightarrow>
                            one_cursor_walk vm jt this (upcalls stackStream)
                              (w1\<lparr>streams := (streams w1)(this \<mapsto> stream1)\<rparr>, a1)))))"

text \<open>
  What a fill has put out: the frame records behind the slots from \<^verbatim>\<open>start_index\<close> up
  to \<^verbatim>\<open>end_index\<close> of the buffer. \<open>frame_info\<close> is the record that
  \<^verbatim>\<open>fill_stackframe\<close> leaves of a frame in an empty record, and \<open>live_frame_info\<close> the
  one that \<^verbatim>\<open>fill_live_stackframe\<close> leaves of a frame that has no locals, operands or
  monitors.
\<close>

definition decoded_records :: "int \<Rightarrow> fill_state \<Rightarrow> StackFrameInfo option list" where
  "decoded_records start_index st =
     map (fs_heap st)
       (take (nat (fs_end_index st - start_index)) (drop (nat start_index) (fs_frames_array st)))"

definition frame_info :: "vframe \<Rightarrow> oop \<Rightarrow> StackFrameInfo" where
  "frame_info f c =
     \<lparr>sfi_method = vf_method f, sfi_bci = vf_bci f, sfi_cont = c, sfi_locals = None,
      sfi_operands = None, sfi_monitors = None, sfi_mode = None\<rparr>"

definition live_frame_info :: "vframe \<Rightarrow> oop \<Rightarrow> StackFrameInfo" where
  "live_frame_info f c = (frame_info f c)\<lparr>sfi_mode := Some (frame_mode_of f)\<rparr>"

subsection \<open>Stacks to run the walker on\<close>

unbundle bit_operations_syntax

text \<open>
  A VM whose walking mode is a set of bits (class references only, caller class, show
  hidden frames), with two continuations: 7, of scope 70, runs inside 8, of scope 80.
\<close>

definition vm0 :: jvm where
  "vm0 = \<lparr>ShowHiddenFrames = False,
          skip_hidden_frames = (\<lambda>mode. mode AND 0x20 = 0),
          get_caller_class = (\<lambda>mode. mode AND 0x04 \<noteq> 0),
          need_method_info = (\<lambda>mode. mode AND 0x02 = 0),
          StackWalker_klass = 100,
          AbstractStackWalker_klass = 101,
          Continuation_scope = (\<lambda>c. if c = 7 then 70 else if c = 8 then 80 else NULL),
          Continuation_parent = (\<lambda>c. if c = 7 then 8 else NULL),
          is_scope_bottom = (\<lambda>scope f. False),
          last_java_vframe = (\<lambda>c. []),
          BufferSize = 256\<rparr>"

definition jt1 :: JavaThread where
  "jt1 = \<lparr>thread_ptr = 1, threadObj = 11\<rparr>"

definition jt2 :: JavaThread where
  "jt2 = \<lparr>thread_ptr = 2, threadObj = 12\<rparr>"

definition mk_method :: "nat \<Rightarrow> string \<Rightarrow> bool \<Rightarrow> bool \<Rightarrow> Method" where
  "mk_method p name hidden sensitive =
     \<lparr>method_ptr = p, external_name = name,
      method_holder = \<lparr>klass_ptr = 200 + p, klass_super = 1, java_mirror = 300 + p\<rparr>,
      is_hidden = hidden, caller_sensitive = sensitive,
      is_continuation_enter_intrinsic = False\<rparr>"

definition mk_frame :: "nat \<Rightarrow> Method \<Rightarrow> int \<Rightarrow> bool \<Rightarrow> vframe" where
  "mk_frame fr m b entry =
     \<lparr>vf_fr = fr, vf_method = Some m, vf_bci = b, vf_continuation = NULL,
      vf_is_continuation_entry_frame = entry, vf_locals = [], vf_expressions = [],
      vf_monitors = [], vf_is_interpreted_frame = True, vf_is_compiled_frame = False\<rparr>"

definition frame_A :: vframe where "frame_A = mk_frame 1 (mk_method 1 ''A.a()'' False False) 5 False"
definition frame_B :: vframe where "frame_B = mk_frame 2 (mk_method 2 ''B.b()'' True False) 6 False"
definition frame_C :: vframe where "frame_C = mk_frame 3 (mk_method 3 ''C.c()'' False False) 7 False"
definition frame_S :: vframe where "frame_S = mk_frame 4 (mk_method 4 ''S.s()'' False True) 8 False"
definition frame_E :: vframe where "frame_E = mk_frame 7 (mk_method 7 ''E.enter()'' False False) 3 True"

text \<open>A frame that has no method.\<close>

definition frame_N :: vframe where
  "frame_N =
     \<lparr>vf_fr = 8, vf_method = None, vf_bci = 4, vf_continuation = NULL,
      vf_is_continuation_entry_frame = False, vf_locals = [], vf_expressions = [],
      vf_monitors = [], vf_is_interpreted_frame = True, vf_is_compiled_frame = False\<rparr>"

definition java_stream :: "JavaThread \<Rightarrow> jlong \<Rightarrow> vframe list \<Rightarrow> bool \<Rightarrow> BaseFrameStream" where
  "java_stream jt anchor v need_info =
     \<lparr>s_thread = jt, s_continuation = NULL, s_anchor = anchor,
      s_kind = JavaFrameStream v need_info\<rparr>"

definition live_stream ::
  "JavaThread \<Rightarrow> jlong \<Rightarrow> vframe list \<Rightarrow> oop \<Rightarrow> oop \<Rightarrow> BaseFrameStream" where
  "live_stream jt anchor jvf cont_scope c =
     \<lparr>s_thread = jt, s_continuation = NULL, s_anchor = anchor,
      s_kind = LiveFrameStream jvf cont_scope c\<rparr>"

definition empty_info :: StackFrameInfo where
  "empty_info = \<lparr>sfi_method = None, sfi_bci = 0, sfi_cont = NULL, sfi_locals = None,
                 sfi_operands = None, sfi_monitors = None, sfi_mode = None\<rparr>"

text \<open>A heap with an empty frame record behind each of the references 501 to 509.\<close>

definition heap0 :: heap where
  "heap0 = (\<lambda>a. if 501 \<le> a \<and> a \<le> 509 then Some empty_info else None)"

text \<open>
  A world with one stream, at the address 64, and a world with two: a suspended walk at
  the address 64 and a second one at the address 128, both of the thread \<open>jt1\<close>.
\<close>

definition world1 :: "BaseFrameStream \<Rightarrow> world" where
  "world1 s = \<lparr>streams = (\<lambda>a. if a = 64 then Some s else None), heap = heap0, trace = []\<rparr>"

definition world2 :: "BaseFrameStream \<Rightarrow> BaseFrameStream \<Rightarrow> world" where
  "world2 s t =
     \<lparr>streams = (\<lambda>a. if a = 64 then Some s else if a = 128 then Some t else None),
      heap = heap0, trace = []\<rparr>"

text \<open>A buffer of eleven slots, and a state of the loop of a fill on the heap above.\<close>

definition buffer11 :: objArray where
  "buffer11 = [11, 501, 502, 503, 504, 505, 506, 507, 508, 509, 510]"

definition loop_state :: "BaseFrameStream \<Rightarrow> objArray \<Rightarrow> int \<Rightarrow> int \<Rightarrow> fill_state" where
  "loop_state s a e d =
     \<lparr>fs_stream = s, fs_frames_array = a, fs_heap = heap0, fs_end_index = e,
      fs_frames_decoded = d, fs_trace = []\<rparr>"

text \<open>
  A fill of a batch of ten frames from slot 1 of that buffer, and a walk with no frame
  to skip and a batch of ten in which the orchestration logic returns 42 at once.
\<close>

definition fill_ten :: "jlong \<Rightarrow> BaseFrameStream \<Rightarrow> (throwable + int) \<times> fill_state" where
  "fill_ten mode s = fill_in_frames vm0 mode s 10 1 buffer11 1 heap0 []"

definition walk_ten :: "BaseFrameStream \<Rightarrow> (throwable + oop) \<times> world \<times> objArray" where
  "walk_ten s =
     fetchFirstBatch vm0 jt1 64 \<lparr>upcalls = [], outcome = Inr 42\<rparr> 0 0 10 1 buffer11 (world1 s)"

text \<open>
  Two activations of one method at the same bytecode offset, as recursion leaves them
  on a stack, and two walks in batches of one frame. In the first, the orchestration
  logic presents the token zero, overwrites the reserved slot, tries to rebind the
  cursor, restores the slot and then asks for two more batches.
\<close>

definition frame_R1 :: vframe where "frame_R1 = mk_frame 5 (mk_method 5 ''R.rec()'' False False) 9 False"

definition frame_R2 :: vframe where "frame_R2 = mk_frame 6 (mk_method 5 ''R.rec()'' False False) 9 False"

definition refused_calls :: orchestration where
  "refused_calls =
     \<lparr>upcalls = [CallFetchNextBatch 0 0 1 1, StoreElement 0 99, CallSetContinuation 64 7,
                 StoreElement 0 11, CallFetchNextBatch 0 64 1 1, CallFetchNextBatch 0 64 1 1],
      outcome = Inr 42\<rparr>"

definition walk_refused_calls :: "(throwable + oop) \<times> world \<times> objArray" where
  "walk_refused_calls =
     fetchFirstBatch vm0 jt1 64 refused_calls
       0 0 1 1 [0, 501] (world1 (java_stream jt1 0 [frame_A, frame_B, frame_C] True))"

definition walk_recursion :: "(throwable + oop) \<times> world \<times> objArray" where
  "walk_recursion =
     fetchFirstBatch vm0 jt1 64
       \<lparr>upcalls = [CallFetchNextBatch 0 64 1 1], outcome = Inr 42\<rparr>
       0 0 1 1 [0, 501] (world1 (java_stream jt1 0 [frame_R1, frame_R2] True))"

text \<open>
  A VM in which the continuation 7 has the frames \<open>A\<close> and \<open>C\<close>, a class-only cursor
  made for a continuation, and a walk of the continuation 7 in which the orchestration
  logic, after a first batch of two frames, rebinds the cursor to the same continuation
  and asks for another batch.
\<close>

definition vm1 :: jvm where
  "vm1 = vm0\<lparr>last_java_vframe := (\<lambda>c. if c = 7 then [frame_A, frame_C] else [])\<rparr>"

definition continuation_stream ::
  "JavaThread \<Rightarrow> jlong \<Rightarrow> oop \<Rightarrow> vframe list \<Rightarrow> bool \<Rightarrow> BaseFrameStream" where
  "continuation_stream jt anchor c v need_info =
     \<lparr>s_thread = jt, s_continuation = c, s_anchor = anchor,
      s_kind = JavaFrameStream v need_info\<rparr>"

definition walk_rebound :: "(throwable + oop) \<times> world \<times> objArray" where
  "walk_rebound =
     fetchFirstBatch vm1 jt1 64
       \<lparr>upcalls = [CallSetContinuation 64 7, CallFetchNextBatch 0 64 2 1], outcome = Inr 42\<rparr>
       0 0 2 1 [0, 501, 502]
       (world1 (continuation_stream jt1 0 7 (last_java_vframe vm1 7) True))"

section \<open>Properties\<close>

subsection \<open>Sums of two ints\<close>

lemma jint_add_eq: "jint_add a b = (a + b + 2147483648) mod 4294967296 - 2147483648"
  unfolding jint_add_def by (subst int_word_sint) simp

lemma jint_add_in_range:
  "- 2147483648 \<le> a + b \<Longrightarrow> a + b < 2147483648 \<Longrightarrow> jint_add a b = a + b"
  by (simp add: jint_add_eq)

subsection \<open>Boxing of stack values\<close>

lemma long_at_pred: "i < length values \<Longrightarrow>
    long_at values (int i - 1) = Inr (sv_integer_value (values ! i))"
  by (simp add: long_at_def sv_at_def)

lemma slot_instance_wide:
  assumes "i < length values" "sv_type (values ! i) \<noteq> T_OBJECT" "sv_type (values ! i) \<noteq> T_CONFLICT"
  shows "slot_instance values i = Inr (PrimitiveSlot64 (sv_integer_value (values ! i)))"
  using assms
  by (simp add: slot_instance_def slot_type_and_index_def long_at_pred asPrimitive_long_def)

lemma slot_instance_total:
  assumes "i < length values"
  shows "\<exists>obj. slot_instance values i = Inr obj"
proof (cases "sv_type (values ! i) \<noteq> T_OBJECT \<and> sv_type (values ! i) \<noteq> T_CONFLICT")
  case True
  with assms show ?thesis by (simp add: slot_instance_wide)
next
  case False
  with assms show ?thesis
    by (auto simp: slot_instance_def slot_type_and_index_def obj_at_sv_def sv_at_def)
qed

lemma values_loop_result:
  assumes "\<forall>i \<in> set is. i < length values" "distinct is" "length array_h = length values"
  shows "\<exists>arr. values_loop values is array_h = Inr arr \<and> length arr = length values \<and>
           (\<forall>i < length values.
              arr ! i = (if i \<in> set is \<and> slot_instance values i \<noteq> Inr (Reference NULL)
                         then projr (slot_instance values i) else array_h ! i))"
  using assms
proof (induction "is" arbitrary: array_h)
  case Nil
  then show ?case by simp
next
  case (Cons j js)
  from Cons.prems obtain obj where obj: "slot_instance values j = Inr obj"
    using slot_instance_total by (metis list.set_intros(1))
  let ?a = "if obj \<noteq> Reference NULL then array_h[j := obj] else array_h"
  have len: "length ?a = length values" using Cons.prems by simp
  from Cons.IH [of ?a] Cons.prems len obtain arr where
    arr: "values_loop values js ?a = Inr arr" "length arr = length values"
      "\<forall>i < length values.
          arr ! i = (if i \<in> set js \<and> slot_instance values i \<noteq> Inr (Reference NULL)
                     then projr (slot_instance values i) else ?a ! i)"
    by auto
  have "values_loop values (j # js) array_h = Inr arr"
    using obj arr(1) by simp
  moreover have "\<forall>i < length values.
      arr ! i = (if i \<in> set (j # js) \<and> slot_instance values i \<noteq> Inr (Reference NULL)
                 then projr (slot_instance values i) else array_h ! i)"
  proof (intro allI impI)
    fix i assume i: "i < length values"
    show "arr ! i = (if i \<in> set (j # js) \<and> slot_instance values i \<noteq> Inr (Reference NULL)
                 then projr (slot_instance values i) else array_h ! i)"
    proof (cases "i = j")
      case True
      then have "i \<notin> set js" using Cons.prems(2) by simp
      with arr(3) i have "arr ! i = ?a ! i" by simp
      with True obj i Cons.prems(3) show ?thesis by simp
    next
      case False
      with arr(3) i show ?thesis by simp
    qed
  qed
  ultimately show ?case using arr(2) by blast
qed

text \<open>
  C8. On the 64-bit build every slot of a frame that is neither an object nor a
  conflict slot is boxed as a wide value: the index is moved back by one, which
  \<open>long_at\<close> undoes, so the box holds the full word of that very slot, and reading the
  box back gives this word, whatever the slot before it holds.
\<close>

theorem wide_slot_round_trip:
  assumes "i < length values"
      and "sv_type (values ! i) \<noteq> T_OBJECT" and "sv_type (values ! i) \<noteq> T_CONFLICT"
  shows "slot_type_and_index values i = (T_LONG, int i - 1)
       \<and> (\<exists>arr. values_to_object_array values = Inr arr \<and> length arr = length values
              \<and> longValue (arr ! i) = Some (sv_integer_value (values ! i)))"
proof -
  have "\<forall>i \<in> set [0..<length values]. i < length values" by simp
  from values_loop_result [OF this, of "replicate (length values) (Reference NULL)"]
  obtain arr where arr: "values_to_object_array values = Inr arr" "length arr = length values"
    "\<forall>i < length values.
        arr ! i = (if i \<in> set [0..<length values] \<and> slot_instance values i \<noteq> Inr (Reference NULL)
                   then projr (slot_instance values i)
                   else replicate (length values) (Reference NULL) ! i)"
    by (auto simp: values_to_object_array_def)
  have "arr ! i = PrimitiveSlot64 (sv_integer_value (values ! i))"
    using arr(3) assms by (simp add: slot_instance_wide)
  then show ?thesis
    using arr(1,2) assms by (simp add: slot_type_and_index_def)
qed

theorem wide_slot_round_trip_witness:
  "(1::nat) < length [\<lparr>sv_type = T_CONFLICT, sv_integer_value = 0, sv_handle_value = NULL\<rparr>,
                      \<lparr>sv_type = T_INT, sv_integer_value = 0x1122334455667788, sv_handle_value = NULL\<rparr>]
   \<and> (\<exists>arr. values_to_object_array
               [\<lparr>sv_type = T_CONFLICT, sv_integer_value = 0, sv_handle_value = NULL\<rparr>,
                \<lparr>sv_type = T_INT, sv_integer_value = 0x1122334455667788, sv_handle_value = NULL\<rparr>]
             = Inr arr
           \<and> longValue (arr ! 1) = Some 0x1122334455667788)"
  using wide_slot_round_trip [of 1
      "[\<lparr>sv_type = T_CONFLICT, sv_integer_value = 0, sv_handle_value = NULL\<rparr>,
        \<lparr>sv_type = T_INT, sv_integer_value = 0x1122334455667788, sv_handle_value = NULL\<rparr>]"]
  by auto

subsection \<open>The loop of \<^verbatim>\<open>fill_in_frames\<close>\<close>

lemma values_to_object_array_total: "\<exists>arr. values_to_object_array values = Inr arr"
proof -
  have "\<forall>i \<in> set [0..<length values]. i < length values" by simp
  from values_loop_result [OF this, of "replicate (length values) (Reference NULL)"]
  show ?thesis by (auto simp: values_to_object_array_def)
qed

lemma put_field_other: "ref \<noteq> a \<Longrightarrow> put_field h a f ref = h ref"
  by (simp add: put_field_def)

lemma fill_stackframe_effect:
  "fill_stackframe h s a m = (r, h') \<Longrightarrow>
     (\<forall>ref. ref \<noteq> a \<longrightarrow> h' ref = h ref) \<and> (\<forall>e. r = Some e \<longrightarrow> (\<exists>msg. e = Fatal msg))"
  by (auto simp: fill_stackframe_def put_field_other split: if_splits)

lemma fill_live_stackframe_effect:
  "fill_live_stackframe h s a m = (r, h') \<Longrightarrow>
     (\<forall>ref. ref \<noteq> a \<longrightarrow> h' ref = h ref) \<and> (\<forall>e. r = Some e \<longrightarrow> (\<exists>msg. e = Fatal msg))"
proof -
  assume a: "fill_live_stackframe h s a m = (r, h')"
  obtain r1 h1 where f: "fill_stackframe h s a m = (r1, h1)" by (cases "fill_stackframe h s a m")
  note e = fill_stackframe_effect [OF f]
  show ?thesis
  proof (cases r1)
    case (Some x)
    with a f e show ?thesis by (auto simp: fill_live_stackframe_def)
  next
    case None
    show ?thesis
    proof (cases "cur_frames s")
      case Nil
      with a f e None show ?thesis by (auto simp: fill_live_stackframe_def)
    next
      case (Cons jvf rest)
      obtain l where l: "values_to_object_array (vf_locals jvf) = Inr l"
        using values_to_object_array_total by blast
      obtain x where x: "values_to_object_array (vf_expressions jvf) = Inr x"
        using values_to_object_array_total by blast
      from a f None Cons l x have "r = None"
        by (auto simp: fill_live_stackframe_def Let_def split: if_splits)
      moreover have "\<forall>ref. ref \<noteq> a \<longrightarrow> h' ref = h ref"
        using a f None Cons l x e
        by (auto simp: fill_live_stackframe_def Let_def put_field_other split: if_splits)
      ultimately show ?thesis by simp
    qed
  qed
qed

lemma fill_frame_effect:
  assumes "fill_frame s index a h m = (r, a', h')"
  shows "length a' = length a"
    and "\<forall>i. int i \<noteq> index \<longrightarrow> a' ! i = a ! i"
    and "\<forall>ref. h' ref \<noteq> h ref \<longrightarrow> 0 \<le> index \<and> index < int (length a) \<and> ref = a ! nat index"
    and "\<forall>e. r = Some e \<longrightarrow> (\<exists>msg. e = Fatal msg)"
  using assms
  by (auto simp: fill_frame_def obj_at_def obj_at_put_def
      split: stream_kind.splits if_splits prod.splits
      dest!: fill_stackframe_effect fill_live_stackframe_effect)

lemma fill_body_cases:
  obtains
    (skip) "skipped vm mode (fs_stream st)"
      "fill_body vm mode mx si st = Continue st"
  | (sensitive) m where "stream_method (fs_stream st) = Some m" "\<not> skipped vm mode (fs_stream st)"
      "fast_path vm mode" "fs_end_index st = si" "caller_sensitive m"
      "fill_body vm mode mx si st = Throw (UnsupportedCallerSensitive vm m) (st\<lparr>fs_end_index := fs_end_index st + 1\<rparr>)"
  | (thrown) m e a h where "stream_method (fs_stream st) = Some m" "\<not> skipped vm mode (fs_stream st)"
      "\<not> (fast_path vm mode \<and> fs_end_index st = si \<and> caller_sensitive m)"
      "fill_frame (fs_stream st) (fs_end_index st) (fs_frames_array st) (fs_heap st) m = (Some e, a, h)"
      "fill_body vm mode mx si st = Throw e (filled st a h)"
  | (decoded) m a h where "stream_method (fs_stream st) = Some m" "\<not> skipped vm mode (fs_stream st)"
      "\<not> (fast_path vm mode \<and> fs_end_index st = si \<and> caller_sensitive m)"
      "fill_frame (fs_stream st) (fs_end_index st) (fs_frames_array st) (fs_heap st) m = (None, a, h)"
      "fill_body vm mode mx si st =
         (if fs_frames_decoded st + 1 \<ge> mx
          then Break ((filled st a h)\<lparr>fs_frames_decoded := fs_frames_decoded st + 1\<rparr>)
          else Continue ((filled st a h)\<lparr>fs_frames_decoded := fs_frames_decoded st + 1\<rparr>))"
proof (cases "skipped vm mode (fs_stream st)")
  case True
  then have "fill_body vm mode mx si st = Continue st"
    by (auto simp: skipped_def fill_body_def split: option.splits)
  with True show ?thesis by (rule skip)
next
  case False
  then obtain m where m: "stream_method (fs_stream st) = Some m"
    by (auto simp: skipped_def split: option.splits)
  show ?thesis
  proof (cases "fast_path vm mode \<and> fs_end_index st = si \<and> caller_sensitive m")
    case True
    with False m have "fill_body vm mode mx si st
        = Throw (UnsupportedCallerSensitive vm m) (st\<lparr>fs_end_index := fs_end_index st + 1\<rparr>)"
      by (auto simp: skipped_def fast_path_def fill_body_def Let_def)
    with True False m show ?thesis by (auto intro: sensitive)
  next
    case nf: False
    obtain r a h where ff:
      "fill_frame (fs_stream st) (fs_end_index st) (fs_frames_array st) (fs_heap st) m = (r, a, h)"
      by (cases "fill_frame (fs_stream st) (fs_end_index st) (fs_frames_array st) (fs_heap st) m")
    show ?thesis
    proof (cases r)
      case None
      with False m nf ff have "fill_body vm mode mx si st =
         (if fs_frames_decoded st + 1 \<ge> mx
          then Break ((filled st a h)\<lparr>fs_frames_decoded := fs_frames_decoded st + 1\<rparr>)
          else Continue ((filled st a h)\<lparr>fs_frames_decoded := fs_frames_decoded st + 1\<rparr>))"
        by (auto simp: skipped_def fast_path_def fill_body_def Let_def filled_def)
      with None False m nf ff show ?thesis by (auto intro: decoded)
    next
      case (Some e)
      with False m nf ff have "fill_body vm mode mx si st = Throw e (filled st a h)"
        by (auto simp: skipped_def fast_path_def fill_body_def Let_def filled_def)
      with Some False m nf ff show ?thesis by (auto intro: thrown)
    qed
  qed
qed

lemma fill_loop_rule:
  assumes run: "fill_loop vm mode mx si st = (r, st')"
    and init: "I st"
    and at_end: "\<And>st. I st \<Longrightarrow> at_end (fs_stream st) \<Longrightarrow> Q None st"
    and throw: "\<And>st e st1. I st \<Longrightarrow> \<not> at_end (fs_stream st) \<Longrightarrow>
                   fill_body vm mode mx si st = Throw e st1 \<Longrightarrow> Q (Some e) st1"
    and break: "\<And>st st1. I st \<Longrightarrow> \<not> at_end (fs_stream st) \<Longrightarrow>
                   fill_body vm mode mx si st = Break st1 \<Longrightarrow> Q None st1"
    and stuck: "\<And>st st1 e. I st \<Longrightarrow> \<not> at_end (fs_stream st) \<Longrightarrow>
                   fill_body vm mode mx si st = Continue st1 \<Longrightarrow>
                   next vm (fs_stream st1) = Inl e \<Longrightarrow> Q (Some e) st1"
    and step: "\<And>st st1 s'. I st \<Longrightarrow> \<not> at_end (fs_stream st) \<Longrightarrow>
                   fill_body vm mode mx si st = Continue st1 \<Longrightarrow>
                   next vm (fs_stream st1) = Inr s' \<Longrightarrow> I (st1\<lparr>fs_stream := s'\<rparr>)"
  shows "Q r st'"
  using assms
proof (induction vm mode mx si st rule: fill_loop.induct)
  case (1 vm mode mx si st)
  note run = "1.prems"(1) and init = "1.prems"(2) and at_end = "1.prems"(3)
    and throw = "1.prems"(4) and break = "1.prems"(5) and stuck = "1.prems"(6)
    and step = "1.prems"(7)
  show ?case
  proof (cases "at_end (fs_stream st)")
    case True
    with run have "r = None" "st' = st" by (auto simp: fill_loop.simps)
    with at_end [OF init True] show ?thesis by simp
  next
    case False
    show ?thesis
    proof (cases "fill_body vm mode mx si st")
      case (Throw e st1)
      with False run have "r = Some e" "st' = st1" by (auto simp: fill_loop.simps)
      with throw [OF init False Throw] show ?thesis by simp
    next
      case (Break st1)
      with False run have "r = None" "st' = st1" by (auto simp: fill_loop.simps)
      with break [OF init False Break] show ?thesis by simp
    next
      case (Continue st1)
      show ?thesis
      proof (cases "next vm (fs_stream st1)")
        case (Inl e)
        with Continue False run have "r = Some e" "st' = st1" by (auto simp: fill_loop.simps)
        with stuck [OF init False Continue Inl] show ?thesis by simp
      next
        case (Inr s')
        with Continue False run
        have run': "fill_loop vm mode mx si (st1\<lparr>fs_stream := s'\<rparr>) = (r, st')"
          by (simp add: fill_loop.simps)
        have "I (st1\<lparr>fs_stream := s'\<rparr>)"
          using step [OF init False Continue Inr] .
        from "1.IH" [OF False Continue Inr run' this at_end throw break stuck step]
        show ?thesis .
      qed
    qed
  qed
qed

lemma within_filled:
  assumes w: "within a0 h0 e0 st"
    and ff: "fill_frame (fs_stream st) (fs_end_index st) (fs_frames_array st) (fs_heap st) m = (r, a, h)"
  shows "within a0 h0 e0 (filled st a h)"
proof -
  note e = fill_frame_effect [OF ff]
  let ?e = "fs_end_index st"
  have len: "length a = length a0" using e(1) w by (simp add: within_def)
  have arr: "\<forall>i < length a0. \<not> (e0 \<le> int i \<and> int i < ?e + 1) \<longrightarrow> a ! i = a0 ! i"
  proof (intro allI impI)
    fix i assume i: "i < length a0" "\<not> (e0 \<le> int i \<and> int i < ?e + 1)"
    with w have "int i \<noteq> ?e" by (auto simp: within_def)
    with e(2) have "a ! i = fs_frames_array st ! i" by simp
    also have "\<dots> = a0 ! i" using w i by (auto simp: within_def)
    finally show "a ! i = a0 ! i" .
  qed
  have hp: "\<forall>ref. h ref \<noteq> h0 ref
             \<longrightarrow> (\<exists>i < length a0. e0 \<le> int i \<and> int i < ?e + 1 \<and> ref = a0 ! i)"
  proof (intro allI impI)
    fix ref assume ne: "h ref \<noteq> h0 ref"
    show "\<exists>i < length a0. e0 \<le> int i \<and> int i < ?e + 1 \<and> ref = a0 ! i"
    proof (cases "h ref = fs_heap st ref")
      case True
      with ne w obtain i where "i < length a0" "e0 \<le> int i" "int i < ?e" "ref = a0 ! i"
        by (auto simp: within_def)
      then show ?thesis by (intro exI [of _ i]) simp
    next
      case False
      with e(3) have r: "0 \<le> ?e" "?e < int (length (fs_frames_array st))"
        "ref = fs_frames_array st ! nat ?e" by auto
      have "nat ?e < length a0" using r w by (simp add: within_def)
      moreover have "fs_frames_array st ! nat ?e = a0 ! nat ?e"
        using w r by (auto simp: within_def)
      moreover have "e0 \<le> ?e" using w by (simp add: within_def)
      ultimately show ?thesis using r by (intro exI [of _ "nat ?e"]) simp
    qed
  qed
  show ?thesis using len arr hp w by (simp add: within_def filled_def)
qed

lemma within_end_index:
  "within a0 h0 e0 st \<Longrightarrow> within a0 h0 e0 (st\<lparr>fs_end_index := fs_end_index st + 1\<rparr>)"
  by (fastforce simp: within_def)

lemma within_fill_body:
  assumes "within a0 h0 e0 st"
  shows "within a0 h0 e0 (end_state (fill_body vm mode mx si st))"
proof (cases rule: fill_body_cases [of vm mode st mx si])
  case skip
  with assms show ?thesis by simp
next
  case (sensitive m)
  from within_end_index [OF assms] sensitive(6) show ?thesis by simp
next
  case (thrown m e a h)
  with within_filled [OF assms thrown(4)] show ?thesis by simp
next
  case (decoded m a h)
  from within_filled [OF assms decoded(4)]
  have "within a0 h0 e0 ((filled st a h)\<lparr>fs_frames_decoded := fs_frames_decoded st + 1\<rparr>)"
    by (simp add: within_def)
  with decoded show ?thesis by simp
qed

lemma fill_body_stream_end: "fs_stream (end_state (fill_body vm mode mx si st)) = fs_stream st"
  by (cases rule: fill_body_cases [of vm mode st mx si]) (auto simp: filled_def)

lemma fill_loop_within_counted:
  assumes run: "fill_loop vm mode mx si st = (r, st')"
    and "within a0 h0 e0 st" and "counted e0 mx n st"
  shows "within a0 h0 e0 st'
       \<and> (r = None \<longrightarrow> 0 \<le> fs_frames_decoded st' \<and> fs_frames_decoded st' \<le> mx \<and> fs_frames_decoded st' \<le> int n
              \<and> fs_end_index st' = e0 + fs_frames_decoded st')"
proof (rule fill_loop_rule [OF run, where I = "\<lambda>st. within a0 h0 e0 st \<and> counted e0 mx n st"])
  show "within a0 h0 e0 st \<and> counted e0 mx n st" using assms by simp
next
  fix st assume "within a0 h0 e0 st \<and> counted e0 mx n st" "at_end (fs_stream st)"
  then show "within a0 h0 e0 st \<and> (None = None \<longrightarrow> 0 \<le> fs_frames_decoded st \<and> fs_frames_decoded st \<le> mx \<and> fs_frames_decoded st \<le> int n
              \<and> fs_end_index st = e0 + fs_frames_decoded st)"
    by (auto simp: counted_def)
next
  fix st e st1
  assume "within a0 h0 e0 st \<and> counted e0 mx n st" "fill_body vm mode mx si st = Throw e st1"
  with within_fill_body [of a0 h0 e0 st vm mode mx si]
  show "within a0 h0 e0 st1 \<and> (Some e = None \<longrightarrow> 0 \<le> fs_frames_decoded st1 \<and> fs_frames_decoded st1 \<le> mx \<and> fs_frames_decoded st1 \<le> int n
              \<and> fs_end_index st1 = e0 + fs_frames_decoded st1)"
    by simp
next
  fix st st1
  assume a: "within a0 h0 e0 st \<and> counted e0 mx n st" "\<not> at_end (fs_stream st)"
    "fill_body vm mode mx si st = Break st1"
  have w: "within a0 h0 e0 st1" using within_fill_body [of a0 h0 e0 st vm mode mx si] a by simp
  have pos: "1 \<le> int (length (cur_frames (fs_stream st)))"
    using a(2) by (cases "cur_frames (fs_stream st)") (auto simp: at_end_def)
  have "0 \<le> fs_frames_decoded st1 \<and> fs_frames_decoded st1 \<le> mx \<and> fs_frames_decoded st1 \<le> int n
              \<and> fs_end_index st1 = e0 + fs_frames_decoded st1"
    using a pos
    by (cases rule: fill_body_cases [of vm mode st mx si])
       (auto simp: counted_def filled_def at_end_def split: if_splits)
  with w show "within a0 h0 e0 st1 \<and> (None = None \<longrightarrow> 0 \<le> fs_frames_decoded st1 \<and> fs_frames_decoded st1 \<le> mx \<and> fs_frames_decoded st1 \<le> int n
              \<and> fs_end_index st1 = e0 + fs_frames_decoded st1)" by simp
next
  fix st st1 e
  assume "within a0 h0 e0 st \<and> counted e0 mx n st" "fill_body vm mode mx si st = Continue st1"
  with within_fill_body [of a0 h0 e0 st vm mode mx si]
  show "within a0 h0 e0 st1 \<and> (Some e = None \<longrightarrow> 0 \<le> fs_frames_decoded st1 \<and> fs_frames_decoded st1 \<le> mx \<and> fs_frames_decoded st1 \<le> int n
              \<and> fs_end_index st1 = e0 + fs_frames_decoded st1)"
    by simp
next
  fix st st1 s'
  assume a: "within a0 h0 e0 st \<and> counted e0 mx n st" "\<not> at_end (fs_stream st)"
    "fill_body vm mode mx si st = Continue st1" "next vm (fs_stream st1) = Inr s'"
  have w: "within a0 h0 e0 st1" using within_fill_body [of a0 h0 e0 st vm mode mx si] a by simp
  have s: "fs_stream st1 = fs_stream st" using fill_body_stream_end [of vm mode mx si st] a by simp
  from next_shorter [OF a(4)] s
  have sh: "length (cur_frames s') < length (cur_frames (fs_stream st))" by simp
  have "counted e0 mx n (st1\<lparr>fs_stream := s'\<rparr>)"
    using a sh
    by (cases rule: fill_body_cases [of vm mode st mx si])
       (auto simp: counted_def filled_def split: if_splits)
  with w show "within a0 h0 e0 (st1\<lparr>fs_stream := s'\<rparr>) \<and> counted e0 mx n (st1\<lparr>fs_stream := s'\<rparr>)"
    by (simp add: within_def)
qed

lemma skipped_hd: "\<not> at_end s \<Longrightarrow> skipped vm mode s = skipped_frame vm mode (hd (cur_frames s))"
  by (cases "cur_frames s") (auto simp: at_end_def skipped_def skipped_frame_def stream_method_def)

lemma next_error: "next vm s = Inl e \<Longrightarrow> \<exists>msg. e = Fatal msg"
  by (auto simp: next_def JavaFrameStream_next_def LiveFrameStream_next_def java_sender_step_def Let_def
      split: stream_kind.splits list.splits option.splits if_splits sum.splits)

lemma fills_only_snoc:
  "fills_only vm mode evs \<Longrightarrow> \<not> skipped_frame vm mode f \<Longrightarrow> fills_only vm mode (evs @ [FillFrame f c])"
  by (auto simp: fills_only_def)

lemma logged_weaken: "logged vm mode tr0 d0 True st \<Longrightarrow> logged vm mode tr0 d0 b st"
  by (auto simp: logged_def)

lemma logged_fill_body:
  assumes l: "logged vm mode tr0 d0 True st" and ne: "\<not> at_end (fs_stream st)"
  shows "case fill_body vm mode mx si st of
           Throw e st1 \<Rightarrow> logged vm mode tr0 d0 False st1
         | Break st1 \<Rightarrow> logged vm mode tr0 d0 True st1
         | Continue st1 \<Rightarrow> logged vm mode tr0 d0 True st1"
proof -
  from l obtain evs where evs: "fs_trace st = tr0 @ evs" "fills_only vm mode evs"
    "fs_frames_decoded st = d0 + int (length evs)" by (auto simp: logged_def)
  show ?thesis
  proof (cases rule: fill_body_cases [of vm mode st mx si])
    case skip
    with l show ?thesis by simp
  next
    case (sensitive m)
    with evs show ?thesis by (auto simp: logged_def)
  next
    case (thrown m e a h)
    from thrown(2) ne have "\<not> skipped_frame vm mode (hd (cur_frames (fs_stream st)))"
      by (simp add: skipped_hd)
    from fills_only_snoc [OF evs(2) this]
    show ?thesis using thrown(5) evs(1) by (auto simp: logged_def filled_def)
  next
    case (decoded m a h)
    from decoded(2) ne have "\<not> skipped_frame vm mode (hd (cur_frames (fs_stream st)))"
      by (simp add: skipped_hd)
    from fills_only_snoc [OF evs(2) this]
    have "logged vm mode tr0 d0 True ((filled st a h)\<lparr>fs_frames_decoded := fs_frames_decoded st + 1\<rparr>)"
      using evs(1,3) 
      by (simp add: logged_def filled_def)
    with decoded(5) show ?thesis by simp
  qed
qed

lemma fill_loop_logged:
  assumes run: "fill_loop vm mode mx si st = (r, st')"
    and l: "logged vm mode tr0 d0 True st"
  shows "logged vm mode tr0 d0 (r = None) st'"
proof (rule fill_loop_rule [OF run, where I = "logged vm mode tr0 d0 True"
      and Q = "\<lambda>r st. logged vm mode tr0 d0 (r = None) st"])
  show "logged vm mode tr0 d0 True st" by (rule l)
next
  fix st assume "logged vm mode tr0 d0 True st"
  then show "logged vm mode tr0 d0 (None = None) st" by simp
next
  fix st e st1
  assume "logged vm mode tr0 d0 True st" "\<not> at_end (fs_stream st)"
    "fill_body vm mode mx si st = Throw e st1"
  with logged_fill_body [of vm mode tr0 d0 st mx si]
  show "logged vm mode tr0 d0 (Some e = None) st1" by simp
next
  fix st st1
  assume "logged vm mode tr0 d0 True st" "\<not> at_end (fs_stream st)"
    "fill_body vm mode mx si st = Break st1"
  with logged_fill_body [of vm mode tr0 d0 st mx si]
  show "logged vm mode tr0 d0 (None = None) st1" by simp
next
  fix st st1 e
  assume "logged vm mode tr0 d0 True st" "\<not> at_end (fs_stream st)"
    "fill_body vm mode mx si st = Continue st1"
  with logged_fill_body [of vm mode tr0 d0 st mx si]
  show "logged vm mode tr0 d0 (Some e = None) st1" by (auto simp: logged_def)
next
  fix st st1 s'
  assume "logged vm mode tr0 d0 True st" "\<not> at_end (fs_stream st)"
    "fill_body vm mode mx si st = Continue st1"
  with logged_fill_body [of vm mode tr0 d0 st mx si]
  show "logged vm mode tr0 d0 True (st1\<lparr>fs_stream := s'\<rparr>)" by (simp add: logged_def)
qed

lemma fill_loop_skip_step:
  assumes "\<not> at_end (fs_stream st)" "skipped vm mode (fs_stream st)"
  shows "fill_loop vm mode mx si st =
           (case next vm (fs_stream st) of
              Inl e \<Rightarrow> (Some e, st)
            | Inr s' \<Rightarrow> fill_loop vm mode mx si (st\<lparr>fs_stream := s'\<rparr>))"
proof -
  from assms(2) have "fill_body vm mode mx si st = Continue st"
    by (auto simp: skipped_def fill_body_def split: option.splits)
  with assms(1) show ?thesis by (subst fill_loop.simps) simp
qed

lemma fill_loop_sensitive:
  assumes "\<not> at_end (fs_stream st)" "\<not> skipped vm mode (fs_stream st)" "fast_path vm mode"
    "fs_end_index st = si" "stream_method (fs_stream st) = Some m" "caller_sensitive m"
  shows "fill_loop vm mode mx si st
           = (Some (UnsupportedCallerSensitive vm m), st\<lparr>fs_end_index := si + 1\<rparr>)"
proof -
  from assms have "fill_body vm mode mx si st
      = Throw (UnsupportedCallerSensitive vm m) (st\<lparr>fs_end_index := si + 1\<rparr>)"
    by (auto simp: skipped_def fast_path_def fill_body_def Let_def)
  with assms(1) show ?thesis by (subst fill_loop.simps) simp
qed

lemma fill_loop_not_sensitive_later:
  assumes run: "fill_loop vm mode mx si st = (r, st')" and "si < fs_end_index st"
  shows "\<forall>msg. r \<noteq> Some (UnsupportedOperationException msg)"
proof (rule fill_loop_rule [OF run, where I = "\<lambda>st. si < fs_end_index st"
      and Q = "\<lambda>r st. \<forall>msg. r \<noteq> Some (UnsupportedOperationException msg)"])
  show "si < fs_end_index st" by fact
next
  fix st :: fill_state
  show "\<forall>msg. None \<noteq> Some (UnsupportedOperationException msg)" by simp
next
  fix st e st1
  assume a: "si < fs_end_index st" "fill_body vm mode mx si st = Throw e st1"
  show "\<forall>msg. Some e \<noteq> Some (UnsupportedOperationException msg)"
    using a
    by (cases rule: fill_body_cases [of vm mode st mx si])
       (auto dest!: fill_frame_effect(4) split: if_splits)
next
  fix st1 :: fill_state
  show "\<forall>msg. None \<noteq> Some (UnsupportedOperationException msg)" by simp
next
  fix st1 e
  assume "next vm (fs_stream st1) = Inl e"
  from next_error [OF this]
  show "\<forall>msg. Some e \<noteq> Some (UnsupportedOperationException msg)" by auto
next
  fix st st1 s'
  assume a: "si < fs_end_index st" "fill_body vm mode mx si st = Continue st1"
  have "si < fs_end_index st1"
    using a
    by (cases rule: fill_body_cases [of vm mode st mx si])
       (auto simp: filled_def split: if_splits)
  then show "si < fs_end_index (st1\<lparr>fs_stream := s'\<rparr>)" by simp
qed

subsection \<open>What the calls of the orchestration logic keep\<close>

lemma fill_loop_within:
  assumes run: "fill_loop vm mode mx si st = (r, st')" and w: "within a0 h0 e0 st"
  shows "within a0 h0 e0 st'"
proof (rule fill_loop_rule [OF run, where I = "within a0 h0 e0" and Q = "\<lambda>r. within a0 h0 e0"])
  show "within a0 h0 e0 st" by (rule w)
next
  fix st e st1 assume "within a0 h0 e0 st" "fill_body vm mode mx si st = Throw e st1"
  with within_fill_body [of a0 h0 e0 st vm mode mx si] show "within a0 h0 e0 st1" by simp
next
  fix st st1 assume "within a0 h0 e0 st" "fill_body vm mode mx si st = Break st1"
  with within_fill_body [of a0 h0 e0 st vm mode mx si] show "within a0 h0 e0 st1" by simp
next
  fix st st1 assume "within a0 h0 e0 st" "fill_body vm mode mx si st = Continue st1"
  with within_fill_body [of a0 h0 e0 st vm mode mx si] show "within a0 h0 e0 st1" by simp
next
  fix st st1 s' assume "within a0 h0 e0 st" "fill_body vm mode mx si st = Continue st1"
  with within_fill_body [of a0 h0 e0 st vm mode mx si]
  show "within a0 h0 e0 (st1\<lparr>fs_stream := s'\<rparr>)" by (simp add: within_def)
qed

lemma fill_in_frames_length:
  assumes "fill_in_frames vm mode s mx si a e h tr = (r, st)"
  shows "length (fs_frames_array st) = length a"
proof -
  let ?st0 = "\<lparr>fs_stream = s, fs_frames_array = a, fs_heap = h,
               fs_end_index = e, fs_frames_decoded = 0, fs_trace = tr\<rparr>"
  have w0: "within a h e ?st0" by (simp add: within_def)
  show ?thesis
  proof (cases "mx > 0 \<and> jint_add si mx \<le> int (length a)")
    case False
    with assms have "st = ?st0" by (auto simp: fill_in_frames_def Let_def split: if_splits)
    then show ?thesis by simp
  next
    case True
    then obtain r' where "fill_loop vm mode mx si ?st0 = (r', st)"
      using assms
      by (cases "fill_loop vm mode mx si ?st0") (auto simp: fill_in_frames_def Let_def split: option.splits)
    from fill_loop_within [OF this w0] show ?thesis by (simp add: within_def)
  qed
qed

lemma fetchFirstBatch_fill_length:
  assumes "fetchFirstBatch_fill vm s mode skip fc si a h tr = (r, st)"
  shows "length (fs_frames_array st) = length a"
  using assms
  by (auto simp: fetchFirstBatch_fill_def Let_def
      split: sum.splits if_splits prod.splits dest: fill_in_frames_length)

lemma fetchNextBatch_keeps:
  assumes "fetchNextBatch vm jt mode magic fc si (Some a) w = (r, w', a')"
  shows "\<exists>x. a' = Some x \<and> length x = length a"
    and "streams w this \<noteq> None \<Longrightarrow> streams w' this \<noteq> None"
  using assms
  by (auto simp: fetchNextBatch_def Let_def
      split: sum.splits option.splits if_splits prod.splits dest: fill_in_frames_length)

lemma setContinuation_keeps:
  assumes "setContinuation vm jt magic (Some a) c w = (r, w')"
  shows "streams w this \<noteq> None \<Longrightarrow> streams w' this \<noteq> None"
  using assms
  by (auto simp: setContinuation_def split: sum.splits option.splits if_splits)

lemma run_upcall_keeps:
  assumes "run_upcall vm jt u (w, a) = (w', a')"
  shows "length a' = length a" and "streams w this \<noteq> None \<Longrightarrow> streams w' this \<noteq> None"
proof -
  show "length a' = length a"
  proof (cases u)
    case (CallFetchNextBatch mode magic fc si)
    obtain r w1 a1 where f: "fetchNextBatch vm jt mode magic fc si (Some a) w = (r, w1, a1)"
      by (cases "fetchNextBatch vm jt mode magic fc si (Some a) w")
    from fetchNextBatch_keeps(1) [OF f] f assms CallFetchNextBatch show ?thesis by auto
  next
    case (CallSetContinuation magic c)
    with assms show ?thesis by (auto split: prod.splits)
  next
    case (StoreElement i v)
    with assms show ?thesis by (auto simp: obj_at_put_def split: if_splits)
  qed
  show "streams w this \<noteq> None \<Longrightarrow> streams w' this \<noteq> None"
  proof (cases u)
    case (CallFetchNextBatch mode magic fc si)
    obtain r w1 a1 where f: "fetchNextBatch vm jt mode magic fc si (Some a) w = (r, w1, a1)"
      by (cases "fetchNextBatch vm jt mode magic fc si (Some a) w")
    assume "streams w this \<noteq> None"
    from fetchNextBatch_keeps(2) [OF f this] f assms CallFetchNextBatch show ?thesis by auto
  next
    case (CallSetContinuation magic c)
    obtain r w1 where f: "setContinuation vm jt magic (Some a) c w = (r, w1)"
      by (cases "setContinuation vm jt magic (Some a) c w")
    assume "streams w this \<noteq> None"
    from setContinuation_keeps [OF f this] f assms CallSetContinuation show ?thesis by auto
  next
    case (StoreElement i v)
    assume "streams w this \<noteq> None"
    with assms StoreElement show ?thesis by (auto split: sum.splits)
  qed
qed

lemma run_upcalls_keeps:
  assumes "run_upcalls vm jt us (w, a) = (w', a')"
  shows "length a' = length a \<and> (streams w this \<noteq> None \<longrightarrow> streams w' this \<noteq> None)"
  using assms
proof (induction us arbitrary: w a)
  case Nil
  then show ?case by simp
next
  case (Cons u us)
  obtain w1 a1 where u: "run_upcall vm jt u (w, a) = (w1, a1)"
    by (cases "run_upcall vm jt u (w, a)")
  with Cons.prems have "run_upcalls vm jt us (w1, a1) = (w', a')" by simp
  from Cons.IH [OF this] run_upcall_keeps(1) [OF u] run_upcall_keeps(2) [OF u, of this]
  show ?case by auto
qed

lemma cleanup_magic_on_exit_eq:
  "cleanup_magic_on_exit this s a =
     (if a = [] then Inl (Fatal ''objArrayOop::obj_at: index out of bounds'')
      else Inr (a ! 0 = threadObj (s_thread s) \<and> s_anchor s = this, s\<lparr>s_anchor := 0\<rparr>, a[0 := NULL]))"
  by (cases a) (auto simp: cleanup_magic_on_exit_def check_magic_def obj_at_def obj_at_put_def magic_pos_def)

lemma setup_magic_on_entry_eq:
  "a \<noteq> [] \<Longrightarrow> setup_magic_on_entry this s a
      = Inr (s\<lparr>s_anchor := this\<rparr>, a[0 := threadObj (s_thread s)])"
  by (cases a) (auto simp: setup_magic_on_entry_def check_magic_def obj_at_def obj_at_put_def magic_pos_def)

subsection \<open>The first batch\<close>

lemma fill_loop_errors:
  assumes run: "fill_loop vm mode mx si st = (r, st')"
  shows "\<forall>e. r = Some e \<longrightarrow> (\<exists>m. e = UnsupportedCallerSensitive vm m) \<or> (\<exists>msg. e = Fatal msg)"
proof (rule fill_loop_rule [OF run, where I = "\<lambda>st. True"
      and Q = "\<lambda>r st. \<forall>e. r = Some e \<longrightarrow> (\<exists>m. e = UnsupportedCallerSensitive vm m) \<or> (\<exists>msg. e = Fatal msg)"])
  fix st e st1
  assume a: "fill_body vm mode mx si st = Throw e st1"
  show "\<forall>e'. Some e = Some e' \<longrightarrow> (\<exists>m. e' = UnsupportedCallerSensitive vm m) \<or> (\<exists>msg. e' = Fatal msg)"
    using a
    by (cases rule: fill_body_cases [of vm mode st mx si])
       (auto dest!: fill_frame_effect(4) split: if_splits)
next
  fix st1 e
  assume "next vm (fs_stream st1) = Inl e"
  from next_error [OF this]
  show "\<forall>e'. Some e = Some e' \<longrightarrow> (\<exists>m. e' = UnsupportedCallerSensitive vm m) \<or> (\<exists>msg. e' = Fatal msg)"
    by auto
qed simp_all

lemma fill_in_frames_result:
  assumes "fill_in_frames vm mode s mx si a si h tr = (r, st)"
  shows "\<forall>e. r = Inl e \<longrightarrow> (\<exists>m. e = UnsupportedCallerSensitive vm m) \<or> (\<exists>msg. e = Fatal msg)"
    and "\<forall>n. r = Inr n \<longrightarrow> 0 \<le> n"
proof -
  let ?st0 = "\<lparr>fs_stream = s, fs_frames_array = a, fs_heap = h,
               fs_end_index = si, fs_frames_decoded = 0, fs_trace = tr\<rparr>"
  show "\<forall>e. r = Inl e \<longrightarrow> (\<exists>m. e = UnsupportedCallerSensitive vm m) \<or> (\<exists>msg. e = Fatal msg)"
    using assms
    by (auto simp: fill_in_frames_def Let_def split: if_splits prod.splits option.splits
        dest!: fill_loop_errors)
  show "\<forall>n. r = Inr n \<longrightarrow> 0 \<le> n"
  proof (intro allI impI)
    fix n assume n: "r = Inr n"
    with assms have ok: "mx > 0" "jint_add si mx \<le> int (length a)"
      by (auto simp: fill_in_frames_def Let_def split: if_splits)
    with assms n have run: "fill_loop vm mode mx si ?st0 = (None, st)" "n = fs_frames_decoded st"
      by (auto simp: fill_in_frames_def Let_def split: prod.splits option.splits)
    have "within a h si ?st0" by (simp add: within_def)
    moreover have "counted si mx (length (cur_frames s)) ?st0" using ok by (simp add: counted_def)
    ultimately show "0 \<le> n" using fill_loop_within_counted [OF run(1)] run(2) by simp
  qed
qed

lemma skip_walker_frames_result:
  "skip_walker_frames vm s = r \<Longrightarrow>
     (case r of
        Inl e \<Rightarrow> \<exists>msg. e = Fatal msg
      | Inr s' \<Rightarrow> length (cur_frames s') \<le> length (cur_frames s))"
proof (induction vm s arbitrary: r rule: skip_walker_frames.induct)
  case (1 vm s)
  show ?case
  proof (cases "at_end s")
    case True
    with "1.prems" show ?thesis by (auto simp: skip_walker_frames.simps)
  next
    case False
    show ?thesis
    proof (cases "stream_method s")
      case None
      with False "1.prems" show ?thesis by (auto simp: skip_walker_frames.simps)
    next
      case (Some m)
      show ?thesis
      proof (cases "klass_ptr (method_holder m) \<noteq> StackWalker_klass vm
                     \<and> klass_ptr (method_holder m) \<noteq> AbstractStackWalker_klass vm
                     \<and> klass_super (method_holder m) \<noteq> AbstractStackWalker_klass vm")
        case True
        with False Some "1.prems" show ?thesis
          by (subst (asm) skip_walker_frames.simps) (auto simp: Let_def)
      next
        case nb: False
        show ?thesis
        proof (cases "next vm s")
          case (Inl e)
          with False Some nb "1.prems" next_error [OF Inl] show ?thesis
            by (subst (asm) skip_walker_frames.simps) (auto simp: Let_def)
        next
          case (Inr s')
          with False Some nb "1.prems" have r: "skip_walker_frames vm s' = r"
            by (subst (asm) skip_walker_frames.simps) (auto simp: Let_def)
          from "1.IH" [OF False Some refl nb Inr r] next_shorter [OF Inr]
          show ?thesis by (auto split: sum.splits)
        qed
      qed
    qed
  qed
qed

lemma skip_requested_frames_result:
  "skip_requested_frames vm k n s = r \<Longrightarrow>
     (case r of
        Inl e \<Rightarrow> \<exists>msg. e = Fatal msg
      | Inr s' \<Rightarrow> length (cur_frames s') \<le> length (cur_frames s)
                 \<and> (int (length (cur_frames s)) \<le> k - n \<longrightarrow> at_end s'))"
proof (induction vm k n s arbitrary: r rule: skip_requested_frames.induct)
  case (1 vm k n s)
  show ?case
  proof (cases "n < k \<and> \<not> at_end s")
    case False
    with "1.prems" have r: "r = Inr s" by (simp add: skip_requested_frames.simps)
    have "int (length (cur_frames s)) \<le> k - n \<longrightarrow> at_end s"
    proof
      assume "int (length (cur_frames s)) \<le> k - n"
      with False have "at_end s \<or> int (length (cur_frames s)) \<le> 0" by linarith
      then show "at_end s" by (auto simp: at_end_def)
    qed
    with r show ?thesis by simp
  next
    case True
    show ?thesis
    proof (cases "next vm s")
      case (Inl e)
      with True "1.prems" next_error [OF Inl] show ?thesis
        by (subst (asm) skip_requested_frames.simps) auto
    next
      case (Inr s')
      with True "1.prems" have r: "skip_requested_frames vm k (n + 1) s' = r"
        by (subst (asm) skip_requested_frames.simps) auto
      from "1.IH" [OF True Inr r] next_shorter [OF Inr]
      show ?thesis by (auto split: sum.splits)
    qed
  qed
qed

lemma java_next_ok:
  assumes "java_frames_have_methods s" "\<not> at_end s"
  shows "\<exists>s'. next vm s = Inr s' \<and> java_frames_have_methods s'"
proof -
  from assms obtain f v nmi where k: "s_kind s = JavaFrameStream (f # v) nmi"
    "list_all (\<lambda>f. vf_method f \<noteq> None) (f # v)"
    by (cases "s_kind s"; cases "cur_frames s")
       (auto simp: java_frames_have_methods_def at_end_def cur_frames_def)
  show ?thesis
  proof (cases v)
    case Nil
    with k show ?thesis
      by (simp add: next_def JavaFrameStream_next_def java_frames_have_methods_def)
  next
    case (Cons g v2)
    with k obtain m where "vf_method g = Some m" by auto
    with k Cons show ?thesis
      by (simp add: next_def JavaFrameStream_next_def java_frames_have_methods_def)
  qed
qed

lemma java_skip_walker_frames_ok:
  "java_frames_have_methods s \<Longrightarrow>
     \<exists>s'. skip_walker_frames vm s = Inr s' \<and> java_frames_have_methods s'"
proof (induction vm s rule: skip_walker_frames.induct)
  case (1 vm s)
  show ?case
  proof (cases "at_end s")
    case True
    with "1.prems" show ?thesis by (simp add: skip_walker_frames.simps)
  next
    case False
    with "1.prems" obtain m where m: "stream_method s = Some m"
      by (cases "s_kind s"; cases "cur_frames s")
         (auto simp: java_frames_have_methods_def at_end_def cur_frames_def stream_method_def)
    show ?thesis
    proof (cases "klass_ptr (method_holder m) \<noteq> StackWalker_klass vm
                   \<and> klass_ptr (method_holder m) \<noteq> AbstractStackWalker_klass vm
                   \<and> klass_super (method_holder m) \<noteq> AbstractStackWalker_klass vm")
      case True
      with False m "1.prems" show ?thesis
        by (subst skip_walker_frames.simps) (auto simp: Let_def)
    next
      case nb: False
      from java_next_ok [OF "1.prems" False] obtain s' where
        s': "next vm s = Inr s'" "java_frames_have_methods s'" by blast
      from "1.IH" [OF False m refl nb s'(1) s'(2)] False m nb s'(1) show ?thesis
        by (subst skip_walker_frames.simps) (auto simp: Let_def)
    qed
  qed
qed

lemma java_skip_requested_frames_ok:
  "java_frames_have_methods s \<Longrightarrow> \<exists>s'. skip_requested_frames vm k n s = Inr s'"
proof (induction vm k n s rule: skip_requested_frames.induct)
  case (1 vm k n s)
  show ?case
  proof (cases "n < k \<and> \<not> at_end s")
    case False
    then show ?thesis by (subst skip_requested_frames.simps) auto
  next
    case True
    with java_next_ok [OF "1.prems"] obtain s' where
      s': "next vm s = Inr s'" "java_frames_have_methods s'" by blast
    from "1.IH" [OF True s'(1) s'(2)] True s'(1) show ?thesis
      by (subst skip_requested_frames.simps) auto
  qed
qed

lemma fetchFirstBatch_fill_skip_all:
  assumes "int (length (cur_frames stream)) \<le> skip_frames"
  shows "\<exists>r s2. fetchFirstBatch_fill vm stream mode skip_frames frame_count start_index
                    frames_array h tr
               = (r, \<lparr>fs_stream = s2, fs_frames_array = frames_array, fs_heap = h,
                      fs_end_index = start_index, fs_frames_decoded = 0, fs_trace = tr\<rparr>)
           \<and> (r = Inr start_index \<and> at_end s2 \<or> (\<exists>msg. r = Inl (Fatal msg)))
           \<and> (java_frames_have_methods stream \<longrightarrow> r = Inr start_index)"
proof (cases "skip_walker_frames vm stream")
  case (Inl e)
  from skip_walker_frames_result [OF Inl] obtain msg where "e = Fatal msg" by auto
  moreover have "\<not> java_frames_have_methods stream"
    using java_skip_walker_frames_ok [of stream vm] Inl by auto
  ultimately show ?thesis using Inl by (auto simp: fetchFirstBatch_fill_def)
next
  case (Inr s1)
  from skip_walker_frames_result [OF Inr] assms
  have len: "int (length (cur_frames s1)) \<le> skip_frames - 0" by simp
  have j1: "java_frames_have_methods stream \<longrightarrow> java_frames_have_methods s1"
    using java_skip_walker_frames_ok [of stream vm] Inr by auto
  show ?thesis
  proof (cases "skip_requested_frames vm skip_frames 0 s1")
    case e: (Inl e)
    from skip_requested_frames_result [OF e] obtain msg where "e = Fatal msg" by auto
    moreover have "\<not> java_frames_have_methods stream"
      using java_skip_requested_frames_ok [of s1 vm skip_frames 0] e j1 by auto
    ultimately show ?thesis using Inr e by (auto simp: fetchFirstBatch_fill_def)
  next
    case s2: (Inr s2)
    from skip_requested_frames_result [OF s2] len have "at_end s2" by simp
    with Inr s2 show ?thesis by (auto simp: fetchFirstBatch_fill_def)
  qed
qed

lemma first_decode_failure_iff:
  "fst (fetchFirstBatch_fill vm stream mode skip_frames frame_count start_index frames_array h tr)
     = Inl DecodeFailure
   \<longleftrightarrow> (\<exists>s1 s2 st. skip_walker_frames vm stream = Inr s1
          \<and> skip_requested_frames vm skip_frames 0 s1 = Inr s2 \<and> \<not> at_end s2
          \<and> fill_in_frames vm mode s2 frame_count start_index frames_array start_index h tr
              = (Inr 0, st))"
proof (cases "skip_walker_frames vm stream")
  case (Inl e)
  from skip_walker_frames_result [OF Inl] Inl show ?thesis
    by (auto simp: fetchFirstBatch_fill_def)
next
  case (Inr s1)
  show ?thesis
  proof (cases "skip_requested_frames vm skip_frames 0 s1")
    case e: (Inl e)
    from skip_requested_frames_result [OF e] Inr e show ?thesis
      by (auto simp: fetchFirstBatch_fill_def)
  next
    case s2: (Inr s2)
    show ?thesis
    proof (cases "at_end s2")
      case True
      with Inr s2 show ?thesis by (auto simp: fetchFirstBatch_fill_def)
    next
      case False
      obtain r st where f: "fill_in_frames vm mode s2 frame_count start_index frames_array
          start_index h tr = (r, st)"
        by (cases "fill_in_frames vm mode s2 frame_count start_index frames_array start_index h tr")
      note res = fill_in_frames_result [OF f]
      show ?thesis
      proof (cases r)
        case (Inl e)
        with res(1) Inr s2 False f show ?thesis by (auto simp: fetchFirstBatch_fill_def)
      next
        case n: (Inr n)
        with res(2) have "n < 1 \<longleftrightarrow> n = 0" by auto
        with n Inr s2 False f show ?thesis by (auto simp: fetchFirstBatch_fill_def)
      qed
    qed
  qed
qed

lemma from_current_result:
  "from_current w jt magic fa = r \<Longrightarrow>
     (case r of
        Inl e \<Rightarrow> \<exists>msg. e = Fatal msg
      | Inr None \<Rightarrow> True
      | Inr (Some x) \<Rightarrow> x = magic \<and> streams w magic \<noteq> None)"
  by (auto simp: from_current_def obj_at_def is_valid_in_def check_magic_def
      split: option.splits sum.splits if_splits)

lemma later_decode_failure_iff:
  "fst (fetchNextBatch vm jt mode magic frame_count start_index (Some a) w) = Inl LaterDecodeFailure
   \<longleftrightarrow> (\<exists>s s1 st. from_current w jt magic (Some a) = Inr (Some magic)
          \<and> 0 < frame_count \<and> jint_add frame_count start_index \<le> int (length a)
          \<and> streams w magic = Some s \<and> \<not> at_end s \<and> next vm s = Inr s1 \<and> \<not> at_end s1
          \<and> fill_in_frames vm mode s1 frame_count start_index a start_index (heap w)
               (trace w @ [FinishProcessing]) = (Inr 0, st))"
proof (cases "from_current w jt magic (Some a) = Inr (Some magic) \<and> 0 < frame_count
     \<and> jint_add frame_count start_index \<le> int (length a)")
  case False
  with from_current_result [OF refl, where w = w and jt = jt and magic = magic and fa = "Some a"] show ?thesis
    by (auto simp: fetchNextBatch_def Let_def split: sum.splits option.splits)
next
  case True
  with from_current_result [OF refl, where w = w and jt = jt and magic = magic and fa = "Some a"]
  obtain s where s: "streams w magic = Some s" by auto
  show ?thesis
  proof (cases "at_end s")
    case True
    with \<open>from_current w jt magic (Some a) = Inr (Some magic) \<and> 0 < frame_count
     \<and> jint_add frame_count start_index \<le> int (length a)\<close> s show ?thesis
      by (auto simp: fetchNextBatch_def Let_def)
  next
    case False
    show ?thesis
    proof (cases "next vm s")
      case (Inl e)
      with next_error [OF Inl] True s False show ?thesis
        by (auto simp: fetchNextBatch_def Let_def)
    next
      case (Inr s1)
      show ?thesis
      proof (cases "at_end s1")
        case e: True
        with True s False Inr show ?thesis by (auto simp: fetchNextBatch_def Let_def)
      next
        case ne: False
        obtain r st where f: "fill_in_frames vm mode s1 frame_count start_index a start_index
            (heap w) (trace w @ [FinishProcessing]) = (r, st)"
          by (cases "fill_in_frames vm mode s1 frame_count start_index a start_index
            (heap w) (trace w @ [FinishProcessing])")
        note res = fill_in_frames_result [OF f]
        show ?thesis
        proof (cases r)
          case (Inl e)
          with res(1) True s False Inr ne f show ?thesis
            by (auto simp: fetchNextBatch_def Let_def)
        next
          case n: (Inr n)
          with res(2) have "n < 1 \<longleftrightarrow> n = 0" by auto
          with n True s False Inr ne f show ?thesis
            by (auto simp: fetchNextBatch_def Let_def)
        qed
      qed
    qed
  qed
qed

lemma fetchFirstBatch_skip_all:
  assumes "int (length (cur_frames stream)) \<le> skip_frames" "java_frames_have_methods stream"
    "streams w this = Some stream" "frames_array \<noteq> []"
  shows "\<exists>w'. fetchFirstBatch vm jt this \<lparr>upcalls = [], outcome = Inr v\<rparr> mode skip_frames
                 frame_count start_index frames_array w
              = (Inr v, w', frames_array[0 := NULL])
            \<and> trace w' = trace w \<and> heap w' = heap w"
proof -
  from fetchFirstBatch_fill_skip_all [OF assms(1), of vm mode frame_count start_index
      frames_array "heap w" "trace w"] assms(2)
  obtain s2 where "fetchFirstBatch_fill vm stream mode skip_frames frame_count start_index
        frames_array (heap w) (trace w)
      = (Inr start_index, \<lparr>fs_stream = s2, fs_frames_array = frames_array, fs_heap = heap w,
                      fs_end_index = start_index, fs_frames_decoded = 0, fs_trace = trace w\<rparr>)"
    by auto
  with assms(3,4) show ?thesis
    by (simp add: fetchFirstBatch_def setup_magic_on_entry_eq doStackWalk_def
        cleanup_magic_on_exit_eq Let_def)
qed

subsection \<open>The position of the cursor\<close>

lemma decoded_frames_append: "decoded_frames (xs @ ys) = decoded_frames xs @ decoded_frames ys"
  by (induction xs rule: decoded_frames.induct) auto

lemma next_suffix:
  "next vm s = Inr s' \<Longrightarrow> \<exists>Q. Q \<noteq> [] \<and> cur_frames s = Q @ cur_frames s'"
  by (auto simp: next_def JavaFrameStream_next_def LiveFrameStream_next_def java_sender_step_def
        cur_frames_def Let_def
      split: stream_kind.splits list.splits option.splits if_splits sum.splits)

lemma advanced_walked: "advanced S T0 s tr \<Longrightarrow> walked S T0 s tr"
  by (auto simp: advanced_def walked_def)

lemma walked_next:
  assumes "walked S T0 s tr" "next vm s = Inr s'"
  shows "advanced S T0 s' tr"
proof -
  from assms(1) obtain P evs where w: "S = P @ cur_frames s" "tr = T0 @ evs"
    "subseq (decoded_frames evs) (P @ take 1 (cur_frames s))" by (auto simp: walked_def)
  from next_suffix [OF assms(2)] obtain Q where q: "Q \<noteq> []" "cur_frames s = Q @ cur_frames s'"
    by blast
  then obtain x Q' where "Q = x # Q'" by (cases Q) auto
  with q have "P @ take 1 (cur_frames s) = P @ [x]" "P @ Q = (P @ [x]) @ Q'" by simp_all
  with w(3) have "subseq (decoded_frames evs) (P @ Q)" by (metis list_emb_prefix)
  with w q show ?thesis by (auto simp: advanced_def intro!: exI [of _ "P @ Q"])
qed

lemma walked_flush: "walked S T0 s tr \<Longrightarrow> walked S T0 s (tr @ [FinishProcessing])"
  by (fastforce simp: walked_def decoded_frames_append)

lemma advanced_flush: "advanced S T0 s tr \<Longrightarrow> advanced S T0 s (tr @ [FinishProcessing])"
  by (fastforce simp: advanced_def decoded_frames_append)

lemma advanced_fill:
  assumes "advanced S T0 s tr" "\<not> at_end s"
  shows "walked S T0 s (tr @ [FillFrame (hd (cur_frames s)) c])"
proof -
  from assms(1) obtain P evs where w: "S = P @ cur_frames s" "tr = T0 @ evs"
    "subseq (decoded_frames evs) P" by (auto simp: advanced_def)
  from assms(2) obtain x R where r: "cur_frames s = x # R"
    by (cases "cur_frames s") (auto simp: at_end_def)
  have "subseq (decoded_frames evs @ [x]) (P @ [x])"
    using w(3) by (intro list_emb_append_mono) auto
  with w r show ?thesis
    by (auto simp: walked_def decoded_frames_append
        intro!: exI [of _ P] exI [of _ "evs @ [FillFrame x c]"])
qed

lemma walked_anchor [simp]: "walked S T0 (s\<lparr>s_anchor := x\<rparr>) tr = walked S T0 s tr"
  by (simp add: walked_def cur_frames_def)

lemma advanced_fill_body:
  assumes "advanced S T0 (fs_stream st) (fs_trace st)" "\<not> at_end (fs_stream st)"
  shows "walked S T0 (fs_stream (end_state (fill_body vm mode mx si st)))
           (fs_trace (end_state (fill_body vm mode mx si st)))"
proof (cases rule: fill_body_cases [of vm mode st mx si])
  case skip
  with assms show ?thesis by (simp add: advanced_walked)
next
  case (sensitive m)
  with assms show ?thesis by (simp add: advanced_walked)
next
  case (thrown m e a h)
  with advanced_fill [OF assms] show ?thesis by (simp add: filled_def)
next
  case (decoded m a h)
  with advanced_fill [OF assms] show ?thesis by (simp add: filled_def)
qed

lemma fill_loop_walked:
  assumes run: "fill_loop vm mode mx si st = (r, st')"
    and "advanced S T0 (fs_stream st) (fs_trace st)"
  shows "walked S T0 (fs_stream st') (fs_trace st')"
proof (rule fill_loop_rule [OF run, where I = "\<lambda>st. advanced S T0 (fs_stream st) (fs_trace st)"
      and Q = "\<lambda>r st. walked S T0 (fs_stream st) (fs_trace st)"])
  show "advanced S T0 (fs_stream st) (fs_trace st)" by fact
next
  fix st assume "advanced S T0 (fs_stream st) (fs_trace st)"
  then show "walked S T0 (fs_stream st) (fs_trace st)" by (rule advanced_walked)
next
  fix st e st1
  assume "advanced S T0 (fs_stream st) (fs_trace st)" "\<not> at_end (fs_stream st)"
    "fill_body vm mode mx si st = Throw e st1"
  with advanced_fill_body [of S T0 st vm mode mx si]
  show "walked S T0 (fs_stream st1) (fs_trace st1)" by simp
next
  fix st st1
  assume "advanced S T0 (fs_stream st) (fs_trace st)" "\<not> at_end (fs_stream st)"
    "fill_body vm mode mx si st = Break st1"
  with advanced_fill_body [of S T0 st vm mode mx si]
  show "walked S T0 (fs_stream st1) (fs_trace st1)" by simp
next
  fix st st1 e
  assume "advanced S T0 (fs_stream st) (fs_trace st)" "\<not> at_end (fs_stream st)"
    "fill_body vm mode mx si st = Continue st1"
  with advanced_fill_body [of S T0 st vm mode mx si]
  show "walked S T0 (fs_stream st1) (fs_trace st1)" by simp
next
  fix st st1 s'
  assume a: "advanced S T0 (fs_stream st) (fs_trace st)" "\<not> at_end (fs_stream st)"
    "fill_body vm mode mx si st = Continue st1" "next vm (fs_stream st1) = Inr s'"
  with advanced_fill_body [of S T0 st vm mode mx si]
  have "walked S T0 (fs_stream st1) (fs_trace st1)" by simp
  from walked_next [OF this a(4)]
  show "advanced S T0 (fs_stream (st1\<lparr>fs_stream := s'\<rparr>)) (fs_trace (st1\<lparr>fs_stream := s'\<rparr>))"
    by simp
qed

lemma fill_in_frames_walked:
  assumes "fill_in_frames vm mode s mx si a e h tr = (r, st)" "advanced S T0 s tr"
  shows "walked S T0 (fs_stream st) (fs_trace st)"
proof -
  let ?st0 = "\<lparr>fs_stream = s, fs_frames_array = a, fs_heap = h,
               fs_end_index = e, fs_frames_decoded = 0, fs_trace = tr\<rparr>"
  show ?thesis
  proof (cases "mx > 0 \<and> jint_add si mx \<le> int (length a)")
    case False
    with assms(1) have "st = ?st0" by (auto simp: fill_in_frames_def Let_def split: if_splits)
    with assms(2) show ?thesis by (simp add: advanced_walked)
  next
    case True
    then obtain r' where "fill_loop vm mode mx si ?st0 = (r', st)"
      using assms(1)
      by (cases "fill_loop vm mode mx si ?st0") (auto simp: fill_in_frames_def Let_def split: option.splits)
    from fill_loop_walked [OF this, of S T0] assms(2) show ?thesis by simp
  qed
qed

lemma walked_subseq:
  assumes "walked S T0 s tr"
  shows "\<exists>evs. tr = T0 @ evs \<and> subseq (decoded_frames evs) S"
proof -
  from assms obtain P evs where w: "S = P @ cur_frames s" "tr = T0 @ evs"
    "subseq (decoded_frames evs) (P @ take 1 (cur_frames s))" by (auto simp: walked_def)
  have "S = (P @ take 1 (cur_frames s)) @ drop 1 (cur_frames s)" using w(1) by simp
  with w(3) have "subseq (decoded_frames evs) S" by (metis list_emb_prefix)
  with w(2) show ?thesis by blast
qed

lemma advanced_start: "advanced (cur_frames s) tr s tr"
  by (auto simp: advanced_def intro!: exI [of _ "[]"])

lemma skip_walker_frames_advanced:
  "skip_walker_frames vm s = Inr s' \<Longrightarrow> advanced S T0 s tr \<Longrightarrow> advanced S T0 s' tr"
proof (induction vm s rule: skip_walker_frames.induct)
  case (1 vm s)
  show ?case
  proof (cases "at_end s")
    case True
    with "1.prems" show ?thesis by (simp add: skip_walker_frames.simps)
  next
    case False
    show ?thesis
    proof (cases "stream_method s")
      case None
      with False "1.prems" show ?thesis by (simp add: skip_walker_frames.simps)
    next
      case (Some m)
      show ?thesis
      proof (cases "klass_ptr (method_holder m) \<noteq> StackWalker_klass vm
                     \<and> klass_ptr (method_holder m) \<noteq> AbstractStackWalker_klass vm
                     \<and> klass_super (method_holder m) \<noteq> AbstractStackWalker_klass vm")
        case True
        with False Some "1.prems" show ?thesis
          by (subst (asm) skip_walker_frames.simps) (auto simp: Let_def)
      next
        case nb: False
        show ?thesis
        proof (cases "next vm s")
          case (Inl e)
          with False Some nb "1.prems" show ?thesis
            by (subst (asm) skip_walker_frames.simps) (auto simp: Let_def)
        next
          case (Inr s1)
          with False Some nb "1.prems" have r: "skip_walker_frames vm s1 = Inr s'"
            by (subst (asm) skip_walker_frames.simps) (auto simp: Let_def)
          from walked_next [OF advanced_walked [OF "1.prems"(2)] Inr]
          have "advanced S T0 s1 tr" .
          from "1.IH" [OF False Some refl nb Inr r this] show ?thesis .
        qed
      qed
    qed
  qed
qed

lemma skip_requested_frames_advanced:
  "skip_requested_frames vm k n s = Inr s' \<Longrightarrow> advanced S T0 s tr \<Longrightarrow> advanced S T0 s' tr"
proof (induction vm k n s rule: skip_requested_frames.induct)
  case (1 vm k n s)
  show ?case
  proof (cases "n < k \<and> \<not> at_end s")
    case False
    with "1.prems" show ?thesis by (subst (asm) skip_requested_frames.simps) auto
  next
    case True
    show ?thesis
    proof (cases "next vm s")
      case (Inl e)
      with True "1.prems" show ?thesis by (subst (asm) skip_requested_frames.simps) auto
    next
      case (Inr s1)
      with True "1.prems" have r: "skip_requested_frames vm k (n + 1) s1 = Inr s'"
        by (subst (asm) skip_requested_frames.simps) auto
      from walked_next [OF advanced_walked [OF "1.prems"(2)] Inr]
      have "advanced S T0 s1 tr" .
      from "1.IH" [OF True Inr r this] show ?thesis .
    qed
  qed
qed

lemma fetchFirstBatch_fill_walked:
  assumes "fetchFirstBatch_fill vm stream mode skip fc si a h tr = (r, st)"
  shows "walked (cur_frames stream) tr (fs_stream st) (fs_trace st)"
proof -
  note a0 = advanced_start [of stream tr]
  show ?thesis
  proof (cases "skip_walker_frames vm stream")
    case (Inl e)
    with assms a0 show ?thesis by (auto simp: fetchFirstBatch_fill_def advanced_walked)
  next
    case (Inr s1)
    note a1 = skip_walker_frames_advanced [OF Inr a0]
    show ?thesis
    proof (cases "skip_requested_frames vm skip 0 s1")
      case e: (Inl e)
      with assms Inr a1 show ?thesis by (auto simp: fetchFirstBatch_fill_def advanced_walked)
    next
      case s2: (Inr s2)
      note a2 = skip_requested_frames_advanced [OF s2 a1]
      show ?thesis
      proof (cases "at_end s2")
        case True
        with assms Inr s2 a2 show ?thesis by (auto simp: fetchFirstBatch_fill_def advanced_walked)
      next
        case False
        obtain r' st' where f: "fill_in_frames vm mode s2 fc si a si h tr = (r', st')"
          by (cases "fill_in_frames vm mode s2 fc si a si h tr")
        from fill_in_frames_walked [OF f a2] assms Inr s2 False f show ?thesis
          by (auto simp: fetchFirstBatch_fill_def split: sum.splits if_splits)
      qed
    qed
  qed
qed

lemma fetchNextBatch_walked:
  assumes f: "fetchNextBatch vm jt mode this fc si (Some a) w = (r, w', a')"
    and s: "streams w this = Some s" and wk: "walked S T0 s (trace w)"
  shows "\<exists>s'. streams w' this = Some s' \<and> walked S T0 s' (trace w')"
proof (cases "from_current w jt this (Some a) = Inr (Some this) \<and> 0 < fc
     \<and> jint_add fc si \<le> int (length a) \<and> \<not> at_end s")
  case False
  with from_current_result [OF refl, where w = w and jt = jt and magic = this and fa = "Some a"] f s
  have "w' = w"
    by (auto simp: fetchNextBatch_def Let_def split: sum.splits option.splits if_splits)
  with s wk show ?thesis by simp
next
  case True
  show ?thesis
  proof (cases "next vm s")
    case (Inl e)
    with True f s have "w' = w\<lparr>trace := trace w @ [FinishProcessing]\<rparr>"
      by (auto simp: fetchNextBatch_def Let_def)
    with s walked_flush [OF wk] show ?thesis by simp
  next
    case (Inr s1)
    from advanced_flush [OF walked_next [OF wk Inr]]
    have adv: "advanced S T0 s1 (trace w @ [FinishProcessing])" .
    show ?thesis
    proof (cases "at_end s1")
      case e: True
      with True f s Inr
      have "w' = w\<lparr>trace := trace w @ [FinishProcessing], streams := (streams w)(this \<mapsto> s1)\<rparr>"
        by (auto simp: fetchNextBatch_def Let_def)
      with advanced_walked [OF adv] show ?thesis by simp
    next
      case ne: False
      obtain r' st where fl: "fill_in_frames vm mode s1 fc si a si (heap w)
          (trace w @ [FinishProcessing]) = (r', st)"
        by (cases "fill_in_frames vm mode s1 fc si a si (heap w) (trace w @ [FinishProcessing])")
      from True f s Inr ne fl
      have "streams w' this = Some (fs_stream st)" "trace w' = fs_trace st"
        by (auto simp: fetchNextBatch_def Let_def split: sum.splits if_splits)
      with fill_in_frames_walked [OF fl adv] show ?thesis by simp
    qed
  qed
qed

lemma fill_in_frames_logged:
  assumes run: "fill_in_frames vm mode s mx si a e h tr = (r, st)"
  shows "\<exists>evs. fs_trace st = tr @ evs \<and> fills_only vm mode evs"
proof -
  let ?st0 = "\<lparr>fs_stream = s, fs_frames_array = a, fs_heap = h,
               fs_end_index = e, fs_frames_decoded = 0, fs_trace = tr\<rparr>"
  have l0: "logged vm mode tr 0 True ?st0" by (simp add: logged_def fills_only_def)
  show ?thesis
  proof (cases "mx > 0 \<and> jint_add si mx \<le> int (length a)")
    case False
    with run have "st = ?st0" by (auto simp: fill_in_frames_def Let_def split: if_splits)
    then show ?thesis by (simp add: fills_only_def)
  next
    case True
    then obtain r' where "fill_loop vm mode mx si ?st0 = (r', st)"
      using run
      by (cases "fill_loop vm mode mx si ?st0") (auto simp: fill_in_frames_def Let_def split: option.splits)
    from fill_loop_logged [OF this l0] show ?thesis by (auto simp: logged_def)
  qed
qed

lemma fetchNextBatch_trace:
  assumes f: "fetchNextBatch vm jt mode magic fc si (Some a) w = (r, w', a')"
  shows "trace w' = trace w
       \<or> (\<exists>s evs. streams w magic = Some s \<and> trace w' = trace w @ FinishProcessing # evs
              \<and> FinishProcessing \<notin> set evs \<and> subseq (decoded_frames evs) (tl (cur_frames s)))"
proof (cases "from_current w jt magic (Some a) = Inr (Some magic) \<and> 0 < fc
     \<and> jint_add fc si \<le> int (length a)")
  case False
  with from_current_result [OF refl, where w = w and jt = jt and magic = magic and fa = "Some a"] f
  have "w' = w"
    by (auto simp: fetchNextBatch_def Let_def split: sum.splits option.splits if_splits)
  then show ?thesis by simp
next
  case True
  with from_current_result [OF refl, where w = w and jt = jt and magic = magic and fa = "Some a"]
  obtain s where s: "streams w magic = Some s" by auto
  show ?thesis
  proof (cases "at_end s")
    case e: True
    with True f s have "w' = w" by (auto simp: fetchNextBatch_def Let_def)
    then show ?thesis by simp
  next
    case False
    show ?thesis
    proof (cases "next vm s")
      case (Inl e)
      with True False f s have "trace w' = trace w @ FinishProcessing # []"
        by (auto simp: fetchNextBatch_def Let_def)
      with s show ?thesis by (intro disjI2 exI [of _ s] exI [of _ "[]"]) simp
    next
      case (Inr s1)
      from next_suffix [OF Inr] obtain x Q where q: "cur_frames s = (x # Q) @ cur_frames s1"
        by (metis list.exhaust)
      show ?thesis
      proof (cases "at_end s1")
        case e: True
        with True False f s Inr have "trace w' = trace w @ FinishProcessing # []"
          by (auto simp: fetchNextBatch_def Let_def)
        with s show ?thesis by (intro disjI2 exI [of _ s] exI [of _ "[]"]) simp
      next
        case ne: False
        obtain r' st where fl: "fill_in_frames vm mode s1 fc si a si (heap w)
            (trace w @ [FinishProcessing]) = (r', st)"
          by (cases "fill_in_frames vm mode s1 fc si a si (heap w) (trace w @ [FinishProcessing])")
        from True False f s Inr ne fl have t: "trace w' = fs_trace st"
          by (auto simp: fetchNextBatch_def Let_def split: sum.splits if_splits)
        from fill_in_frames_logged [OF fl] obtain evs where
          evs: "fs_trace st = (trace w @ [FinishProcessing]) @ evs" "fills_only vm mode evs"
          by blast
        from walked_subseq [OF fill_in_frames_walked [OF fl advanced_start]] evs(1)
        have "subseq (decoded_frames evs) (cur_frames s1)" by auto
        then have "subseq (decoded_frames evs) (Q @ cur_frames s1)" by (rule list_emb_append2)
        with q have "subseq (decoded_frames evs) (tl (cur_frames s))" by simp
        moreover have "FinishProcessing \<notin> set evs" using evs(2) by (auto simp: fills_only_def)
        ultimately show ?thesis using s t evs(1)
          by (intro disjI2 exI [of _ s] exI [of _ evs]) simp
      qed
    qed
  qed
qed

lemma fetchNextBatch_other:
  assumes "fetchNextBatch vm jt mode magic fc si (Some a) w = (r, w', a')" "magic \<noteq> this"
  shows "streams w' this = streams w this"
proof -
  note fr = from_current_result [OF refl, where w = w and jt = jt and magic = magic and fa = "Some a"]
  show ?thesis
    using assms fr
    by (auto simp: fetchNextBatch_def Let_def
        split: sum.splits option.splits if_splits prod.splits)
qed

lemma fetchNextBatch_appends:
  assumes "fetchNextBatch vm jt mode magic fc si (Some a) w = (r, w', a')"
  shows "\<exists>D. trace w' = trace w @ D"
  using fetchNextBatch_trace [OF assms] by auto

lemma setContinuation_effect:
  assumes "setContinuation vm jt magic (Some a) c w = (r, w')"
  shows "trace w' = trace w" and "magic \<noteq> this \<Longrightarrow> streams w' this = streams w this"
    and "r \<noteq> None \<Longrightarrow> w' = w"
  using assms from_current_result [OF refl, where w = w and jt = jt and magic = magic and fa = "Some a"]
  by (auto simp: setContinuation_def split: sum.splits option.splits if_splits)

lemma walked_no_frames:
  assumes "walked S T0 s tr" "decoded_frames D = []"
  shows "walked S T0 s (tr @ D)"
proof -
  from assms(1) obtain P evs where w: "S = P @ cur_frames s" "tr = T0 @ evs"
    "subseq (decoded_frames evs) (P @ take 1 (cur_frames s))" by (auto simp: walked_def)
  have "decoded_frames (evs @ D) = decoded_frames evs" using assms(2) by (simp add: decoded_frames_append)
  with w show ?thesis unfolding walked_def by (intro exI [of _ P] exI [of _ "evs @ D"]) simp
qed

lemma run_upcall_walked:
  assumes u: "run_upcall vm jt u (w, a) = (w', a')" and k: "keeps_cursor vm jt this u (w, a)"
    and s: "streams w this = Some s" and wk: "walked S T0 s (trace w)"
  shows "\<exists>s'. streams w' this = Some s' \<and> walked S T0 s' (trace w')"
proof (cases u)
  case (CallFetchNextBatch mode magic fc si)
  obtain r w2 a2 where f: "fetchNextBatch vm jt mode magic fc si (Some a) w = (r, w2, a2)"
    by (cases "fetchNextBatch vm jt mode magic fc si (Some a) w")
  with u CallFetchNextBatch have w': "w' = w2" by simp
  show ?thesis
  proof (cases "magic = this")
    case True
    from fetchNextBatch_walked [OF f [unfolded True] s wk] w' show ?thesis by simp
  next
    case False
    with k CallFetchNextBatch f have d: "decoded_frames (trace w2) = decoded_frames (trace w)" by simp
    from fetchNextBatch_appends [OF f] obtain D where D: "trace w2 = trace w @ D" by blast
    with d have "decoded_frames D = []" by (simp add: decoded_frames_append)
    from walked_no_frames [OF wk this] D fetchNextBatch_other [OF f False] s w'
    show ?thesis by simp
  qed
next
  case (CallSetContinuation magic c)
  obtain r w2 where f: "setContinuation vm jt magic (Some a) c w = (r, w2)"
    by (cases "setContinuation vm jt magic (Some a) c w")
  with u CallSetContinuation have w': "w' = w2" by simp
  show ?thesis
  proof (cases "magic = this")
    case True
    with k CallSetContinuation f have "r \<noteq> None" by simp
    from setContinuation_effect(3) [OF f this] w' s wk show ?thesis by simp
  next
    case False
    from setContinuation_effect(1) [OF f] setContinuation_effect(2) [OF f False] w' s wk
    show ?thesis by simp
  qed
next
  case (StoreElement i v)
  with u s wk show ?thesis by (auto split: sum.splits)
qed

lemma run_upcalls_walked:
  assumes "run_upcalls vm jt us (w, a) = (w', a')" "one_cursor_walk vm jt this us (w, a)"
    "streams w this = Some s" "walked S T0 s (trace w)"
  shows "\<exists>s'. streams w' this = Some s' \<and> walked S T0 s' (trace w')"
  using assms
proof (induction us arbitrary: w a s)
  case Nil
  then show ?case by simp
next
  case (Cons u us)
  obtain w1 a1 where u: "run_upcall vm jt u (w, a) = (w1, a1)"
    by (cases "run_upcall vm jt u (w, a)")
  from Cons.prems(2) u have k: "keeps_cursor vm jt this u (w, a)"
    "one_cursor_walk vm jt this us (w1, a1)" by simp_all
  from run_upcall_walked [OF u k(1) Cons.prems(3,4)]
  obtain s1 where s1: "streams w1 this = Some s1" "walked S T0 s1 (trace w1)" by blast
  from Cons.prems(1) u have "run_upcalls vm jt us (w1, a1) = (w', a')" by simp
  from Cons.IH [OF this k(2) s1] show ?case .
qed

lemma setup_magic_on_entry_stream:
  "setup_magic_on_entry this s a = Inr (s1, a1) \<Longrightarrow> s1 = s\<lparr>s_anchor := this\<rparr>"
  by (auto simp: setup_magic_on_entry_def Let_def split: sum.splits if_splits)

lemma cleanup_magic_on_exit_stream:
  "cleanup_magic_on_exit this s a = Inr (ok, s1, a1) \<Longrightarrow> s1 = s\<lparr>s_anchor := 0\<rparr>"
  by (auto simp: cleanup_magic_on_exit_def split: sum.splits)

lemma fetchFirstBatch_walked:
  assumes s: "streams w this = Some stream"
    and us: "walks_one_cursor vm jt this stackStream mode skip fc si a w"
    and f: "fetchFirstBatch vm jt this stackStream mode skip fc si a w = (r, w', a')"
  shows "\<exists>s'. streams w' this = Some s' \<and> walked (cur_frames stream) (trace w) s' (trace w')"
proof -
  let ?S = "cur_frames stream" and ?T = "trace w"
  obtain r0 st where ff: "fetchFirstBatch_fill vm stream mode skip fc si a (heap w) (trace w) = (r0, st)"
    by (cases "fetchFirstBatch_fill vm stream mode skip fc si a (heap w) (trace w)")
  note w0 = fetchFirstBatch_fill_walked [OF ff]
  let ?w1 = "w\<lparr>streams := (streams w)(this \<mapsto> fs_stream st), heap := fs_heap st, trace := fs_trace st\<rparr>"
  show ?thesis
  proof (cases r0)
    case (Inl e)
    with s f ff have "w' = ?w1" by (simp add: fetchFirstBatch_def Let_def)
    with w0 show ?thesis by simp
  next
    case (Inr end_index)
    show ?thesis
    proof (cases "setup_magic_on_entry this (fs_stream st) (fs_frames_array st)")
      case e: (Inl e)
      with Inr s f ff have "w' = ?w1" by (simp add: fetchFirstBatch_def Let_def)
      with w0 show ?thesis by simp
    next
      case su: (Inr p)
      obtain s1 a1 where p: "p = (s1, a1)" by (cases p)
      from setup_magic_on_entry_stream [OF su [unfolded p]] have s1: "s1 = (fs_stream st)\<lparr>s_anchor := this\<rparr>" .
      let ?w1' = "?w1\<lparr>streams := (streams ?w1)(this \<mapsto> s1)\<rparr>"
      obtain w2 a2 where ru: "run_upcalls vm jt (upcalls stackStream) (?w1', a1) = (w2, a2)"
        by (cases "run_upcalls vm jt (upcalls stackStream) (?w1', a1)")
      have oc: "one_cursor_walk vm jt this (upcalls stackStream) (?w1', a1)"
        using us s ff Inr su p by (simp add: walks_one_cursor_def Let_def)
      have "streams ?w1' this = Some s1" "walked ?S ?T s1 (trace ?w1')"
        using w0 s1 by simp_all
      from run_upcalls_walked [OF ru oc this] obtain s2 where
        s2: "streams w2 this = Some s2" "walked ?S ?T s2 (trace w2)" by blast
      show ?thesis
      proof (cases "cleanup_magic_on_exit this s2 a2")
        case c: (Inl e)
        with Inr s f ff su p ru s2 have "w' = w2"
          by (simp add: fetchFirstBatch_def Let_def doStackWalk_def)
        with s2 show ?thesis by simp
      next
        case c: (Inr q)
        obtain ok s3 a3 where q: "q = (ok, s3, a3)" by (cases q)
        from cleanup_magic_on_exit_stream [OF c [unfolded q]] have s3: "s3 = s2\<lparr>s_anchor := 0\<rparr>" .
        from Inr s f ff su p ru s2 c q
        have "w' = w2\<lparr>streams := (streams w2)(this \<mapsto> s3)\<rparr>"
          by (auto simp: fetchFirstBatch_def Let_def doStackWalk_def split: sum.splits if_splits)
        with s2 s3 show ?thesis by simp
      qed
    qed
  qed
qed


subsection \<open>Running the walker on a given stack\<close>

lemmas run_defs =
  jint_add_eq fetchNextBatch_def setContinuation_def from_current_def obj_at_def obj_at_put_def magic_pos_def
  is_valid_in_def check_magic_def setup_magic_on_entry_def cleanup_magic_on_exit_def
  world1_def world2_def java_stream_def live_stream_def jt1_def jt2_def
  at_end_def cur_frames_def stream_method_def bci_def cont_def
  next_def JavaFrameStream_next_def LiveFrameStream_next_def java_sender_step_def
  frame_A_def frame_B_def frame_C_def frame_S_def frame_E_def mk_frame_def mk_method_def vm0_def
  fill_in_frames_def fill_loop.simps fill_body_def fill_frame_def fill_stackframe_def
  fill_live_stackframe_def heap0_def put_field_def empty_info_def Let_def
  caller_sensitive_message_def

lemmas walk_defs = fetchFirstBatch_def fetchFirstBatch_fill_def doStackWalk_def
  skip_walker_frames.simps skip_requested_frames.simps frame_R1_def frame_R2_def
  vm1_def continuation_stream_def set_continuation_def refused_calls_def

lemmas out_defs = fill_ten_def walk_ten_def decoded_records_def frame_info_def live_frame_info_def frame_N_def buffer11_def
  frame_mode_of_def values_to_object_array_def monitors_to_object_array_def

subsection \<open>The guard on resumption\<close>

lemma from_current_cases:
  assumes "a \<noteq> []"
  shows "from_current w jt magic (Some a) =
     (if hd a \<noteq> threadObj jt then Inr None
      else if magic = 0 then Inr None
      else case streams w magic of
             None \<Rightarrow> Inl (Fatal ''not a stream'')
           | Some s \<Rightarrow> if s_thread s = jt \<and> s_anchor s = magic then Inr (Some magic) else Inr None)"
  using assms
  by (cases a) (auto simp: from_current_def obj_at_def magic_pos_def is_valid_in_def check_magic_def
      split: option.splits)

text \<open>
  C1, as the code has it. On a buffer that has its reserved slot, \<^verbatim>\<open>fetchNextBatch\<close>
  and \<^verbatim>\<open>setContinuation\<close> fail with \<open>CorruptedBuffer\<close> and leave the state and the
  buffer as they were (so no frame is decoded) when the token is zero, when the reserved
  slot does not hold the identity of the calling thread, or when the stream that the
  token points to belongs to another thread, has no installed guard of its own (its
  anchor is not the token: it was cleared or never set), or belongs to a thread whose
  identity the reserved slot no longer holds.
\<close>

theorem invalid_token_fails_closed:
  assumes "a \<noteq> []"
      and "magic = 0 \<or> a ! 0 \<noteq> threadObj jt
           \<or> (\<exists>s. streams w magic = Some s
                  \<and> (s_thread s \<noteq> jt \<or> s_anchor s \<noteq> magic \<or> a ! 0 \<noteq> threadObj (s_thread s)))"
  shows "fetchNextBatch vm jt mode magic frame_count start_index (Some a) w
           = (Inl CorruptedBuffer, w, Some a)
       \<and> setContinuation vm jt magic (Some a) c w = (Some CorruptedBuffer, w)"
proof -
  have "from_current w jt magic (Some a) = Inr None"
    using assms by (cases a) (auto simp: from_current_cases)
  then show ?thesis by (simp add: fetchNextBatch_def setContinuation_def)
qed

text \<open>
  The walk of the stream at the address 64 is suspended on the buffer, and the thread
  \<open>jt2\<close>, which does not own it, presents its token.
\<close>

theorem invalid_token_fails_closed_witness:
  "[11, 501, 502] \<noteq> ([] :: objArray)
   \<and> [11, 501, 502] ! 0 \<noteq> threadObj jt2
   \<and> fetchNextBatch vm0 jt2 0 64 2 1 (Some [11, 501, 502])
        (world1 (java_stream jt1 64 [frame_A, frame_C] True))
      = (Inl CorruptedBuffer, world1 (java_stream jt1 64 [frame_A, frame_C] True), Some [11, 501, 502])
   \<and> setContinuation vm0 jt2 64 (Some [11, 501, 502]) 7
        (world1 (java_stream jt1 64 [frame_A, frame_C] True))
      = (Some CorruptedBuffer, world1 (java_stream jt1 64 [frame_A, frame_C] True))"
  using invalid_token_fails_closed [of "[11, 501, 502]" 64 jt2
      "world1 (java_stream jt1 64 [frame_A, frame_C] True)" vm0 0 2 1 7]
  by (simp add: jt2_def)

text \<open>
  Not every token of a different cursor is refused, as the specification has it. Two
  walks of the thread \<open>jt1\<close> are suspended, the streams at the addresses 64 and 128; the guard of
  each holds on the buffer, whose reserved slot has the identity of the thread only. The
  token 128 presented with the buffer of the walk at 64 is accepted, and the call decodes
  the next frame of the other stream into that buffer.
\<close>

theorem token_of_other_cursor_counterexample:
  "check_magic 64 (java_stream jt1 64 [frame_A] True) [11, 501, 502] = Inr True
   \<and> check_magic 128 (java_stream jt1 128 [frame_A, frame_C] True) [11, 501, 502] = Inr True
   \<and> fst (fetchNextBatch vm0 jt1 0 128 1 1 (Some [11, 501, 502])
             (world2 (java_stream jt1 64 [frame_A] True)
                     (java_stream jt1 128 [frame_A, frame_C] True))) = Inr 2
   \<and> trace (fst (snd (fetchNextBatch vm0 jt1 0 128 1 1 (Some [11, 501, 502])
             (world2 (java_stream jt1 64 [frame_A] True)
                     (java_stream jt1 128 [frame_A, frame_C] True)))))
        = [FinishProcessing, FillFrame frame_C NULL]"
  by (simp add: run_defs)

text \<open>
  C10. A call of \<^verbatim>\<open>fetchNextBatch\<close> whose token resolves to a stream and whose
  \<^verbatim>\<open>frame_count\<close> is not positive returns \<^verbatim>\<open>start_index\<close> and leaves the state and
  the buffer as they were: the stream is not advanced, the trace has no new flush and no
  slot is written.
\<close>

theorem fetchNextBatch_no_operation:
  assumes "from_current w jt magic frames_array = Inr (Some existing_stream)"
      and "frame_count \<le> 0"
  shows "fetchNextBatch vm jt mode magic frame_count start_index frames_array w
           = (Inr start_index, w, frames_array)"
proof -
  from assms(1) obtain a where "frames_array = Some a"
    by (auto simp: from_current_def split: option.splits)
  with assms show ?thesis by (simp add: fetchNextBatch_def)
qed

theorem fetchNextBatch_no_operation_witness:
  "from_current (world1 (java_stream jt1 64 [frame_A, frame_C] True)) jt1 64 (Some [11, 501, 502])
     = Inr (Some 64)
   \<and> (0::int) \<le> 0
   \<and> fetchNextBatch vm0 jt1 0 64 0 1 (Some [11, 501, 502])
        (world1 (java_stream jt1 64 [frame_A, frame_C] True))
      = (Inr 1, world1 (java_stream jt1 64 [frame_A, frame_C] True), Some [11, 501, 502])"
proof -
  have h: "from_current (world1 (java_stream jt1 64 [frame_A, frame_C] True)) jt1 64
             (Some [11, 501, 502]) = Inr (Some 64)"
    by (simp add: from_current_cases world1_def java_stream_def jt1_def)
  show ?thesis
    using h fetchNextBatch_no_operation [OF h, of 0 vm0 0 1] by simp
qed

subsection \<open>Advancing the live cursor\<close>

text \<open>
  C4. A live cursor stands on the entry frame \<open>f\<close> of its active continuation \<open>c\<close>.
  If the walk has a scope and it is the scope of \<open>c\<close>, \<^verbatim>\<open>next\<close> leaves the cursor
  exhausted. Otherwise the active continuation becomes the parent of \<open>c\<close> and the
  cursor moves to the sender of \<open>f\<close>, unless the frame is the bottom of the scope, where
  the assertion of \<^verbatim>\<open>next\<close> ends the VM.
\<close>

theorem live_next_at_continuation_entry:
  assumes "s_kind s = LiveFrameStream (f # sender) cont_scope c"
      and "c \<noteq> NULL" and "vf_is_continuation_entry_frame f"
  shows "next vm s =
          (if cont_scope \<noteq> NULL \<and> Continuation_scope vm c = cont_scope
           then Inr (s\<lparr>s_kind := LiveFrameStream [] cont_scope (Continuation_parent vm c)\<rparr>)
           else if is_scope_bottom vm cont_scope f then Inl (Fatal ''is_scope_bottom'')
           else Inr (s\<lparr>s_kind := LiveFrameStream sender cont_scope (Continuation_parent vm c)\<rparr>))
       \<and> (cont_scope \<noteq> NULL \<and> Continuation_scope vm c = cont_scope
            \<longrightarrow> (\<exists>s'. next vm s = Inr s' \<and> at_end s'))
       \<and> (\<not> (cont_scope \<noteq> NULL \<and> Continuation_scope vm c = cont_scope)
            \<and> \<not> is_scope_bottom vm cont_scope f
            \<longrightarrow> (\<exists>s'. next vm s = Inr s' \<and> cur_frames s' = sender
                      \<and> cont s' = Continuation_parent vm c))"
  using assms
  by (simp add: next_def LiveFrameStream_next_def java_sender_step_def Let_def at_end_def
      cur_frames_def cont_def)

text \<open>
  The frame \<open>E\<close> is the entry frame of the continuation 7, whose scope is 70 and whose
  parent is 8. A walk scoped to 70 is exhausted by \<^verbatim>\<open>next\<close>; a walk with no scope
  goes on to \<open>C\<close> in the continuation 8. A fill with the scope 70 over the stack
  \<open>A\<close>, \<open>E\<close>, \<open>C\<close> decodes \<open>A\<close> and \<open>E\<close> and ends with the cursor exhausted.
\<close>

theorem live_next_at_continuation_entry_witness:
  "next vm0 (live_stream jt1 0 [frame_E, frame_C] 70 7) = Inr (live_stream jt1 0 [] 70 8)
   \<and> at_end (live_stream jt1 0 [] 70 8)
   \<and> next vm0 (live_stream jt1 0 [frame_E, frame_C] NULL 7) = Inr (live_stream jt1 0 [frame_C] NULL 8)
   \<and> fst (fill_in_frames vm0 0 (live_stream jt1 0 [frame_A, frame_E, frame_C] 70 7) 10 1
             buffer11 1 heap0 []) = Inr 2
   \<and> fs_trace (snd (fill_in_frames vm0 0 (live_stream jt1 0 [frame_A, frame_E, frame_C] 70 7) 10 1
             buffer11 1 heap0 [])) = [FillFrame frame_A 7, FillFrame frame_E 7]
   \<and> at_end (fs_stream (snd (fill_in_frames vm0 0
             (live_stream jt1 0 [frame_A, frame_E, frame_C] 70 7) 10 1 buffer11 1 heap0 [])))"
proof -
  have e: "vf_is_continuation_entry_frame frame_E" "(7::oop) \<noteq> NULL"
    by (simp_all add: frame_E_def mk_frame_def)
  have k: "s_kind (live_stream jt1 0 [frame_E, frame_C] 70 7) = LiveFrameStream (frame_E # [frame_C]) 70 7"
    "s_kind (live_stream jt1 0 [frame_E, frame_C] NULL 7) = LiveFrameStream (frame_E # [frame_C]) NULL 7"
    by (simp_all add: live_stream_def)
  have fill: "fst (fill_in_frames vm0 0 (live_stream jt1 0 [frame_A, frame_E, frame_C] 70 7) 10 1
             buffer11 1 heap0 []) = Inr 2"
    "fs_trace (snd (fill_in_frames vm0 0 (live_stream jt1 0 [frame_A, frame_E, frame_C] 70 7) 10 1
             buffer11 1 heap0 [])) = [FillFrame frame_A 7, FillFrame frame_E 7]"
    "at_end (fs_stream (snd (fill_in_frames vm0 0
             (live_stream jt1 0 [frame_A, frame_E, frame_C] 70 7) 10 1 buffer11 1 heap0 [])))"
    by (simp_all add: run_defs buffer11_def values_to_object_array_def monitors_to_object_array_def
        frame_mode_of_def)
  show ?thesis
    using live_next_at_continuation_entry [OF k(1) e(2,1), of vm0]
      live_next_at_continuation_entry [OF k(2) e(2,1), of vm0] fill
    by (simp add: live_stream_def vm0_def at_end_def cur_frames_def)
qed

subsection \<open>What a fill writes\<close>

text \<open>
  C7. A fill that starts at \<^verbatim>\<open>start_index\<close> keeps the length of the buffer, leaves
  every slot outside \<open>[start_index, end_index)\<close> as it was and changes no frame record
  but those that the slots of this range refer to, however it ends. When it returns a
  count, the count is at most \<^verbatim>\<open>max_nframes\<close> and at most the number of frames that
  the stream had left, and \<^verbatim>\<open>end_index\<close> is \<^verbatim>\<open>start_index\<close> plus the count.
\<close>

theorem fill_in_frames_bounds:
  assumes "fill_in_frames vm mode stream max_nframes start_index frames_array start_index h tr
             = (r, st)"
  shows "length (fs_frames_array st) = length frames_array
       \<and> start_index \<le> fs_end_index st
       \<and> (\<forall>i < length frames_array. \<not> (start_index \<le> int i \<and> int i < fs_end_index st)
              \<longrightarrow> fs_frames_array st ! i = frames_array ! i)
       \<and> (\<forall>ref. fs_heap st ref \<noteq> h ref
              \<longrightarrow> (\<exists>i < length frames_array. start_index \<le> int i \<and> int i < fs_end_index st
                        \<and> ref = frames_array ! i))
       \<and> (\<forall>n. r = Inr n
              \<longrightarrow> 0 \<le> n \<and> n \<le> max_nframes \<and> n \<le> int (length (cur_frames stream))
                  \<and> fs_end_index st = start_index + n)"
proof -
  let ?st0 = "\<lparr>fs_stream = stream, fs_frames_array = frames_array, fs_heap = h,
               fs_end_index = start_index, fs_frames_decoded = 0, fs_trace = tr\<rparr>"
  have w0: "within frames_array h start_index ?st0" by (simp add: within_def)
  show ?thesis
  proof (cases "max_nframes > 0 \<and> jint_add start_index max_nframes \<le> int (length frames_array)")
    case False
    with assms have "st = ?st0" "\<exists>e. r = Inl e"
      by (auto simp: fill_in_frames_def Let_def split: if_splits)
    with w0 show ?thesis by (auto simp: within_def)
  next
    case True
    obtain r' where run: "fill_loop vm mode max_nframes start_index ?st0 = (r', st)"
      and r: "r = (case r' of Some e \<Rightarrow> Inl e | None \<Rightarrow> Inr (fs_frames_decoded st))"
      using assms True
      by (cases "fill_loop vm mode max_nframes start_index ?st0")
         (auto simp: fill_in_frames_def Let_def split: option.splits)
    have c0: "counted start_index max_nframes (length (cur_frames stream)) ?st0"
      using True by (simp add: counted_def)
    from fill_loop_within_counted [OF run w0 c0] r show ?thesis
      by (auto simp: within_def split: option.splits)
  qed
qed

text \<open>
  A fill of at most two frames from slot 1 on, over the stack \<open>A\<close>, \<open>B\<close> (hidden),
  \<open>C\<close>: two frames are decoded, into the records behind the slots 1 and 2; the
  reserved slot, the slot 3 and the record behind it are as they were.
\<close>

theorem fill_in_frames_bounds_witness:
  "case fill_in_frames vm0 0 (java_stream jt1 0 [frame_A, frame_B, frame_C] True) 2 1
          [11, 501, 502, 503] 1 heap0 [] of
     (r, st) \<Rightarrow> r = Inr 2 \<and> fs_end_index st = 3
        \<and> fs_frames_array st ! 0 = 11 \<and> fs_frames_array st ! 3 = 503
        \<and> fs_heap st 503 = heap0 503 \<and> fs_heap st 501 \<noteq> heap0 501"
proof -
  obtain r st where run:
    "fill_in_frames vm0 0 (java_stream jt1 0 [frame_A, frame_B, frame_C] True) 2 1
        [11, 501, 502, 503] 1 heap0 [] = (r, st)"
    by (cases "fill_in_frames vm0 0 (java_stream jt1 0 [frame_A, frame_B, frame_C] True) 2 1
        [11, 501, 502, 503] 1 heap0 []")
  have ev: "r = Inr 2" "fs_heap st 501 \<noteq> heap0 501"
    using run by (auto simp: run_defs)
  note b = fill_in_frames_bounds [OF run]
  have e3: "fs_end_index st = 3" using b ev(1) by simp
  from b have arr: "\<forall>i < length [11, 501, 502, 503::nat].
      \<not> (1 \<le> int i \<and> int i < fs_end_index st)
        \<longrightarrow> fs_frames_array st ! i = [11, 501, 502, 503] ! i"
    by blast
  from b have hp: "\<forall>ref. fs_heap st ref \<noteq> heap0 ref
        \<longrightarrow> (\<exists>i < length [11, 501, 502, 503::nat]. 1 \<le> int i \<and> int i < fs_end_index st
                  \<and> ref = [11, 501, 502, 503] ! i)"
    by blast
  have "fs_frames_array st ! 0 = 11" using arr [rule_format, of 0] e3 by simp
  moreover have "fs_frames_array st ! 3 = 503" using arr [rule_format, of 3] e3 by simp
  moreover have "fs_heap st 503 = heap0 503"
  proof (rule ccontr)
    assume "fs_heap st 503 \<noteq> heap0 503"
    with hp obtain i where i: "1 \<le> int i" "int i < fs_end_index st"
      "503 = [11, 501, 502, 503::nat] ! i"
      by blast
    with e3 have "i = 1 \<or> i = 2" by auto
    with i(3) show False by auto
  qed
  ultimately show ?thesis using run ev e3 by simp
qed

subsection \<open>What a fill skips\<close>

text \<open>
  The loop of a fill passes over the frame that it stands on when the frame has no
  method or, under the default suppression of hidden frames, a hidden method: it goes on
  from the next frame with the buffer, the heap, \<^verbatim>\<open>end_index\<close>, the count and the trace
  as they were, or ends where the cursor cannot be advanced. What a fill adds to the
  trace are calls of \<^verbatim>\<open>fill_frame\<close> only, none of them for a skipped frame, and the
  count it returns is their number.
\<close>

lemma fill_passes_over_skipped:
  "(\<not> at_end (fs_stream st0) \<and> skipped_frame vm mode (hd (cur_frames (fs_stream st0)))
      \<longrightarrow> fill_loop vm mode mx si st0 =
            (case next vm (fs_stream st0) of
               Inl e \<Rightarrow> (Some e, st0)
             | Inr s' \<Rightarrow> fill_loop vm mode mx si (st0\<lparr>fs_stream := s'\<rparr>)))
   \<and> (fill_in_frames vm mode stream max_nframes start_index frames_array end_index h tr = (r, st)
      \<longrightarrow> (\<exists>evs. fs_trace st = tr @ evs
             \<and> (\<forall>e \<in> set evs. \<exists>f c. e = FillFrame f c \<and> \<not> skipped_frame vm mode f)
             \<and> (\<forall>n. r = Inr n \<longrightarrow> n = int (length evs))))"
proof (intro conjI impI)
  assume "\<not> at_end (fs_stream st0) \<and> skipped_frame vm mode (hd (cur_frames (fs_stream st0)))"
  then show "fill_loop vm mode mx si st0 =
            (case next vm (fs_stream st0) of
               Inl e \<Rightarrow> (Some e, st0)
             | Inr s' \<Rightarrow> fill_loop vm mode mx si (st0\<lparr>fs_stream := s'\<rparr>))"
    by (intro fill_loop_skip_step) (simp_all add: skipped_hd)
next
  assume run: "fill_in_frames vm mode stream max_nframes start_index frames_array end_index h tr = (r, st)"
  let ?st0 = "\<lparr>fs_stream = stream, fs_frames_array = frames_array, fs_heap = h,
               fs_end_index = end_index, fs_frames_decoded = 0, fs_trace = tr\<rparr>"
  have l0: "logged vm mode tr 0 True ?st0" by (simp add: logged_def fills_only_def)
  have "logged vm mode tr 0 (\<exists>n. r = Inr n) st"
  proof (cases "max_nframes > 0 \<and> jint_add start_index max_nframes \<le> int (length frames_array)")
    case False
    with run have "st = ?st0" "\<exists>e. r = Inl e"
      by (auto simp: fill_in_frames_def Let_def split: if_splits)
    with l0 show ?thesis by (auto simp: logged_def)
  next
    case True
    obtain r' where run': "fill_loop vm mode max_nframes start_index ?st0 = (r', st)"
      and r: "r = (case r' of Some e \<Rightarrow> Inl e | None \<Rightarrow> Inr (fs_frames_decoded st))"
      using run True
      by (cases "fill_loop vm mode max_nframes start_index ?st0")
         (auto simp: fill_in_frames_def Let_def split: option.splits)
    from fill_loop_logged [OF run' l0] r show ?thesis
      by (cases r') (auto simp: logged_def)
  qed
  moreover have "\<forall>n. r = Inr n \<longrightarrow> n = fs_frames_decoded st"
    using run by (auto simp: fill_in_frames_def Let_def split: if_splits prod.splits option.splits)
  ultimately show "\<exists>evs. fs_trace st = tr @ evs
             \<and> (\<forall>e \<in> set evs. \<exists>f c. e = FillFrame f c \<and> \<not> skipped_frame vm mode f)
             \<and> (\<forall>n. r = Inr n \<longrightarrow> n = int (length evs))"
    by (auto simp: logged_def fills_only_def)
qed

text \<open>
  C6. A fill passes over a hidden frame under the default suppression: on the stack
  \<open>A\<close>, \<open>B\<close> (hidden), \<open>C\<close> with a batch of ten it returns two frames, the records
  behind the slots 1 and 2 are those of \<open>A\<close> and \<open>C\<close>, the buffer and the record
  behind slot 3 are as they were, and with class references only the slots 1 and 2
  receive the classes of \<open>A\<close> and \<open>C\<close>; the walk from \<^verbatim>\<open>fetchFirstBatch\<close> leaves the
  same records. A fill also passes over a frame without a method that the cursor stands
  on when the fill begins (the stack \<open>N\<close>, \<open>C\<close>) or that a live cursor arrives at
  (the stack \<open>A\<close>, \<open>N\<close>, \<open>C\<close>). A class-only cursor does not arrive at such a frame:
  \<^verbatim>\<open>JavaFrameStream::next\<close> asks the frame that it has moved to for its method and
  uses the answer without the test for \<^verbatim>\<open>NULL\<close> that \<^verbatim>\<open>fill_in_frames\<close> makes of
  the same answer. On the stack \<open>A\<close>, \<open>N\<close>, \<open>C\<close> the class-only fill decodes \<open>A\<close>
  and ends the VM there: \<open>N\<close> is not skipped and \<open>C\<close> is never decoded.
\<close>

theorem methodless_frame_ends_class_only_fill:
  "fst (fill_ten 0 (java_stream jt1 0 [frame_A, frame_N, frame_C] True)) = Inl (Fatal ''NULL method'')
   \<and> decoded_records 1 (snd (fill_ten 0 (java_stream jt1 0 [frame_A, frame_N, frame_C] True)))
       = [Some (frame_info frame_A NULL)]
   \<and> fst (walk_ten (java_stream jt1 0 [frame_A, frame_N, frame_C] True)) = Inl (Fatal ''NULL method'')
   \<and> fst (fill_ten 0 (live_stream jt1 0 [frame_A, frame_N, frame_C] NULL NULL)) = Inr 2
   \<and> decoded_records 1 (snd (fill_ten 0 (live_stream jt1 0 [frame_A, frame_N, frame_C] NULL NULL)))
       = [Some (live_frame_info frame_A NULL), Some (live_frame_info frame_C NULL)]
   \<and> fst (fill_ten 0 (java_stream jt1 0 [frame_N, frame_C] True)) = Inr 1
   \<and> decoded_records 1 (snd (fill_ten 0 (java_stream jt1 0 [frame_N, frame_C] True)))
       = [Some (frame_info frame_C NULL)]
   \<and> fst (fill_ten 0 (java_stream jt1 0 [frame_A, frame_B, frame_C] True)) = Inr 2
   \<and> decoded_records 1 (snd (fill_ten 0 (java_stream jt1 0 [frame_A, frame_B, frame_C] True)))
       = [Some (frame_info frame_A NULL), Some (frame_info frame_C NULL)]
   \<and> fs_frames_array (snd (fill_ten 0 (java_stream jt1 0 [frame_A, frame_B, frame_C] True))) = buffer11
   \<and> fs_heap (snd (fill_ten 0 (java_stream jt1 0 [frame_A, frame_B, frame_C] True))) 503 = heap0 503
   \<and> fst (fill_ten 2 (java_stream jt1 0 [frame_A, frame_B, frame_C] False)) = Inr 2
   \<and> fs_frames_array (snd (fill_ten 2 (java_stream jt1 0 [frame_A, frame_B, frame_C] False)))
       = [11, 301, 303, 503, 504, 505, 506, 507, 508, 509, 510]
   \<and> fst (walk_ten (java_stream jt1 0 [frame_A, frame_B, frame_C] True)) = Inr 42
   \<and> map (heap (fst (snd (walk_ten (java_stream jt1 0 [frame_A, frame_B, frame_C] True)))))
         [501, 502, 503]
       = [Some (frame_info frame_A NULL), Some (frame_info frame_C NULL), heap0 503]"
  by (simp add: walk_defs run_defs out_defs)

subsection \<open>Caller-sensitive methods on the fast path\<close>

text \<open>
  C2. On the fast path, when the loop of a fill stands on a frame that it does not skip,
  has not written a frame yet (\<^verbatim>\<open>end_index\<close> is \<^verbatim>\<open>start_index\<close>) and the method of
  the frame is caller-sensitive, the fill fails with \<open>UnsupportedCallerSensitive\<close>
  before it decodes the frame. Once the loop has passed the first slot no frame makes
  the fill fail so, whatever its method.
\<close>

theorem caller_sensitive_first_frame:
  "(\<not> at_end (fs_stream st) \<and> \<not> skipped_frame vm mode (hd (cur_frames (fs_stream st)))
      \<and> fast_path vm mode \<and> fs_end_index st = start_index
      \<and> stream_method (fs_stream st) = Some m \<and> caller_sensitive m
    \<longrightarrow> fill_loop vm mode max_nframes start_index st
          = (Some (UnsupportedCallerSensitive vm m), st\<lparr>fs_end_index := start_index + 1\<rparr>))
   \<and> (start_index < fs_end_index st
    \<longrightarrow> (\<forall>msg. fst (fill_loop vm mode max_nframes start_index st)
                  \<noteq> Some (UnsupportedOperationException msg)))"
proof (intro conjI impI)
  assume a: "\<not> at_end (fs_stream st) \<and> \<not> skipped_frame vm mode (hd (cur_frames (fs_stream st)))
      \<and> fast_path vm mode \<and> fs_end_index st = start_index
      \<and> stream_method (fs_stream st) = Some m \<and> caller_sensitive m"
  then have m: "stream_method (fs_stream st) = Some m" "caller_sensitive m" by simp_all
  from a have "\<not> skipped vm mode (fs_stream st)" by (simp add: skipped_hd)
  with a m show "fill_loop vm mode max_nframes start_index st
          = (Some (UnsupportedCallerSensitive vm m), st\<lparr>fs_end_index := start_index + 1\<rparr>)"
    by (intro fill_loop_sensitive) simp_all
next
  assume a: "start_index < fs_end_index st"
  obtain r st' where run: "fill_loop vm mode max_nframes start_index st = (r, st')"
    by (cases "fill_loop vm mode max_nframes start_index st")
  from fill_loop_not_sensitive_later [OF run a] run
  show "\<forall>msg. fst (fill_loop vm mode max_nframes start_index st)
                  \<noteq> Some (UnsupportedOperationException msg)" by simp
qed

text \<open>
  The mode 6 asks for class references only and for the caller class. On the stack
  \<open>S\<close>, \<open>A\<close>, with \<open>S\<close> caller-sensitive, the fill fails at \<open>S\<close>; were the first
  slot written already, it would decode \<open>S\<close>; on the stack \<open>A\<close>, \<open>S\<close> the fill
  decodes both frames; and on the stack \<open>B\<close> (hidden), \<open>S\<close>, \<open>A\<close> it fails at
  \<open>S\<close>, the first frame that it does not skip.
\<close>

theorem caller_sensitive_first_frame_witness:
  "fast_path vm0 6
   \<and> fill_loop vm0 6 10 1 (loop_state (java_stream jt1 0 [frame_S, frame_A] False) buffer11 1 0)
       = (Some (UnsupportedOperationException
                  ''StackWalker::getCallerClass called from @CallerSensitive 'S.s()' method''),
          loop_state (java_stream jt1 0 [frame_S, frame_A] False) buffer11 2 0)
   \<and> fst (fill_loop vm0 6 10 1 (loop_state (java_stream jt1 0 [frame_S, frame_A] False) buffer11 2 1))
       = None
   \<and> fst (fill_in_frames vm0 6 (java_stream jt1 0 [frame_A, frame_S] False) 10 1 buffer11 1 heap0 [])
       = Inr 2
   \<and> fst (fill_in_frames vm0 6 (java_stream jt1 0 [frame_B, frame_S, frame_A] False) 10 1
             buffer11 1 heap0 [])
       = Inl (UnsupportedOperationException
                ''StackWalker::getCallerClass called from @CallerSensitive 'S.s()' method'')"
proof -
  let ?s = "java_stream jt1 0 [frame_S, frame_A] False"
  have fp: "fast_path vm0 6" by (simp add: fast_path_def vm0_def)
  have h: "\<not> at_end (fs_stream (loop_state ?s buffer11 1 0))"
    "\<not> skipped_frame vm0 6 (hd (cur_frames (fs_stream (loop_state ?s buffer11 1 0))))"
    "fs_end_index (loop_state ?s buffer11 1 0) = 1"
    "stream_method (fs_stream (loop_state ?s buffer11 1 0)) = Some (mk_method 4 ''S.s()'' False True)"
    "caller_sensitive (mk_method 4 ''S.s()'' False True)"
    by (simp_all add: loop_state_def at_end_def cur_frames_def java_stream_def skipped_frame_def
        stream_method_def frame_S_def mk_frame_def mk_method_def vm0_def)
  from caller_sensitive_first_frame [where st = "loop_state ?s buffer11 1 0" and vm = vm0
      and mode = 6 and start_index = 1 and max_nframes = 10
      and m = "mk_method 4 ''S.s()'' False True"] fp h
  have first: "fill_loop vm0 6 10 1 (loop_state ?s buffer11 1 0)
       = (Some (UnsupportedOperationException
                  ''StackWalker::getCallerClass called from @CallerSensitive 'S.s()' method''),
          loop_state ?s buffer11 2 0)"
    by (simp add: loop_state_def caller_sensitive_message_def mk_method_def vm0_def)
  have "(1::int) < fs_end_index (loop_state ?s buffer11 2 1)" by (simp add: loop_state_def)
  with caller_sensitive_first_frame [where st = "loop_state ?s buffer11 2 1" and vm = vm0
      and mode = 6 and start_index = 1 and max_nframes = 10]
  have later: "\<forall>msg. fst (fill_loop vm0 6 10 1 (loop_state ?s buffer11 2 1))
                  \<noteq> Some (UnsupportedOperationException msg)" by blast
  have ev: "fst (fill_loop vm0 6 10 1 (loop_state ?s buffer11 2 1)) = None"
    by (simp add: run_defs loop_state_def buffer11_def)
  have ev2: "fst (fill_in_frames vm0 6 (java_stream jt1 0 [frame_A, frame_S] False) 10 1 buffer11 1 heap0 [])
       = Inr 2"
    by (simp add: run_defs buffer11_def)
  have ev3: "fst (fill_in_frames vm0 6 (java_stream jt1 0 [frame_B, frame_S, frame_A] False) 10 1
             buffer11 1 heap0 [])
       = Inl (UnsupportedOperationException
                ''StackWalker::getCallerClass called from @CallerSensitive 'S.s()' method'')"
    by (simp add: run_defs buffer11_def)
  show ?thesis using fp first later ev ev2 ev3 by simp
qed

subsection \<open>Teardown\<close>

text \<open>
  C9. \<^verbatim>\<open>cleanup_magic_on_exit\<close> on a buffer that has its reserved slot always
  returns the buffer with \<^verbatim>\<open>NULL\<close> in slot 0 and the stream with the anchor 0, and
  its result is whether the guard held before. In \<^verbatim>\<open>fetchFirstBatch\<close>, once the first
  fill has succeeded and the guard is installed, whatever the orchestration logic does
  with the buffer and the token and whether it returns a value or leaves an exception
  pending, the call ends with the reserved slot wiped and the anchor zeroed; it passes
  the pending exception on, and otherwise returns the value when the guard still held
  at the moment of clearing and fails with "corrupted buffers on exit" when it did not.
\<close>

theorem teardown_clears_guard:
  "cleanup_magic_on_exit this s a =
     (if a = [] then Inl (Fatal ''objArrayOop::obj_at: index out of bounds'')
      else Inr (a ! 0 = threadObj (s_thread s) \<and> s_anchor s = this, s\<lparr>s_anchor := 0\<rparr>, a[0 := NULL]))
   \<and> (streams w this = Some stream \<and> frames_array \<noteq> []
        \<and> fetchFirstBatch_fill vm stream mode skip_frames frame_count start_index frames_array
             (heap w) (trace w) = (Inr end_index, st)
      \<longrightarrow> (case run_upcalls vm jt (upcalls stackStream)
                   (w\<lparr>heap := fs_heap st, trace := fs_trace st,
                      streams := (streams w)(this \<mapsto> (fs_stream st)\<lparr>s_anchor := this\<rparr>)\<rparr>,
                    (fs_frames_array st)[0 := threadObj (s_thread (fs_stream st))]) of
              (w2, a2) \<Rightarrow>
                a2 \<noteq> [] \<and>
                (\<exists>s2. streams w2 this = Some s2 \<and>
                   fetchFirstBatch vm jt this stackStream mode skip_frames frame_count start_index
                       frames_array w
                     = (case outcome stackStream of
                          Inl e \<Rightarrow> Inl e
                        | Inr v \<Rightarrow> if a2 ! 0 = threadObj (s_thread s2) \<and> s_anchor s2 = this
                                   then Inr v else Inl CorruptedBufferOnExit,
                        w2\<lparr>streams := (streams w2)(this \<mapsto> s2\<lparr>s_anchor := 0\<rparr>)\<rparr>,
                        a2[0 := NULL]))))"
proof (intro conjI impI)
  show "cleanup_magic_on_exit this s a =
     (if a = [] then Inl (Fatal ''objArrayOop::obj_at: index out of bounds'')
      else Inr (a ! 0 = threadObj (s_thread s) \<and> s_anchor s = this, s\<lparr>s_anchor := 0\<rparr>, a[0 := NULL]))"
    by (rule cleanup_magic_on_exit_eq)
next
  assume a: "streams w this = Some stream \<and> frames_array \<noteq> []
        \<and> fetchFirstBatch_fill vm stream mode skip_frames frame_count start_index frames_array
             (heap w) (trace w) = (Inr end_index, st)"
  let ?w1 = "w\<lparr>heap := fs_heap st, trace := fs_trace st,
                      streams := (streams w)(this \<mapsto> (fs_stream st)\<lparr>s_anchor := this\<rparr>)\<rparr>"
  let ?a1 = "(fs_frames_array st)[0 := threadObj (s_thread (fs_stream st))]"
  from a have ff: "fetchFirstBatch_fill vm stream mode skip_frames frame_count start_index frames_array
             (heap w) (trace w) = (Inr end_index, st)" by simp
  from fetchFirstBatch_fill_length [OF ff] a have ne: "fs_frames_array st \<noteq> []" by auto
  obtain w2 a2 where ru: "run_upcalls vm jt (upcalls stackStream) (?w1, ?a1) = (w2, a2)"
    by (cases "run_upcalls vm jt (upcalls stackStream) (?w1, ?a1)")
  from run_upcalls_keeps [OF ru, where this = this]
  have "length a2 = length (fs_frames_array st)" "streams w2 this \<noteq> None" by simp_all
  with ne obtain s2 where k: "a2 \<noteq> []" "streams w2 this = Some s2" by (cases a2) auto
  have "fetchFirstBatch vm jt this stackStream mode skip_frames frame_count start_index frames_array w
          = (case outcome stackStream of
               Inl e \<Rightarrow> Inl e
             | Inr v \<Rightarrow> if a2 ! 0 = threadObj (s_thread s2) \<and> s_anchor s2 = this
                        then Inr v else Inl CorruptedBufferOnExit,
             w2\<lparr>streams := (streams w2)(this \<mapsto> s2\<lparr>s_anchor := 0\<rparr>)\<rparr>, a2[0 := NULL])"
    using a ff ne ru k
    by (auto simp: fetchFirstBatch_def setup_magic_on_entry_eq doStackWalk_def
        cleanup_magic_on_exit_eq Let_def split: sum.splits)
  with k ru show "case run_upcalls vm jt (upcalls stackStream) (?w1, ?a1) of
              (w2, a2) \<Rightarrow>
                a2 \<noteq> [] \<and>
                (\<exists>s2. streams w2 this = Some s2 \<and>
                   fetchFirstBatch vm jt this stackStream mode skip_frames frame_count start_index
                       frames_array w
                     = (case outcome stackStream of
                          Inl e \<Rightarrow> Inl e
                        | Inr v \<Rightarrow> if a2 ! 0 = threadObj (s_thread s2) \<and> s_anchor s2 = this
                                   then Inr v else Inl CorruptedBufferOnExit,
                        w2\<lparr>streams := (streams w2)(this \<mapsto> s2\<lparr>s_anchor := 0\<rparr>)\<rparr>,
                        a2[0 := NULL]))"
    by simp
qed

text \<open>
  The orchestration logic overwrites the reserved slot and leaves an exception pending;
  it overwrites the slot and returns 42; it returns 42 and leaves the buffer alone.
\<close>

theorem teardown_clears_guard_witness:
  "(case fetchFirstBatch vm0 jt1 64 \<lparr>upcalls = [StoreElement 0 99], outcome = Inl (PendingException 1)\<rparr>
           0 0 2 1 [0, 501, 502] (world1 (java_stream jt1 0 [frame_A, frame_C] True)) of
      (r, w', a') \<Rightarrow> r = Inl (PendingException 1) \<and> a' = [NULL, 501, 502]
         \<and> (\<exists>s'. streams w' 64 = Some s' \<and> s_anchor s' = 0))
   \<and> (case fetchFirstBatch vm0 jt1 64 \<lparr>upcalls = [StoreElement 0 99], outcome = Inr 42\<rparr>
           0 0 2 1 [0, 501, 502] (world1 (java_stream jt1 0 [frame_A, frame_C] True)) of
      (r, w', a') \<Rightarrow> r = Inl CorruptedBufferOnExit \<and> a' = [NULL, 501, 502]
         \<and> (\<exists>s'. streams w' 64 = Some s' \<and> s_anchor s' = 0))
   \<and> (case fetchFirstBatch vm0 jt1 64 \<lparr>upcalls = [], outcome = Inr 42\<rparr>
           0 0 2 1 [0, 501, 502] (world1 (java_stream jt1 0 [frame_A, frame_C] True)) of
      (r, w', a') \<Rightarrow> r = Inr 42 \<and> a' = [NULL, 501, 502]
         \<and> (\<exists>s'. streams w' 64 = Some s' \<and> s_anchor s' = 0))"
proof -
  let ?s = "java_stream jt1 0 [frame_A, frame_C] True"
  let ?w = "world1 ?s"
  have "\<exists>e st. fetchFirstBatch_fill vm0 ?s 0 0 2 1 [0, 501, 502] (heap ?w) (trace ?w) = (Inr e, st)
          \<and> fs_frames_array st = [0, 501, 502] \<and> s_thread (fs_stream st) = jt1"
    by (simp add: fetchFirstBatch_fill_def skip_walker_frames.simps skip_requested_frames.simps
        run_defs)
  then obtain e st where
    ff: "fetchFirstBatch_fill vm0 ?s 0 0 2 1 [0, 501, 502] (heap ?w) (trace ?w) = (Inr e, st)"
    and st: "fs_frames_array st = [0, 501, 502]" "s_thread (fs_stream st) = jt1"
    by blast
  have s: "streams ?w 64 = Some ?s" by (simp add: world1_def)
  have ne: "[0, 501, 502] \<noteq> ([] :: objArray)" by simp
  note t = teardown_clears_guard [where this = 64 and w = ?w and stream = ?s
      and frames_array = "[0, 501, 502]" and vm = vm0 and mode = 0 and skip_frames = 0
      and frame_count = 2 and start_index = 1 and end_index = e and st = st and jt = jt1,
      THEN conjunct2, rule_format, OF conjI [OF s conjI [OF ne ff]]]
  show ?thesis
    using t [of "\<lparr>upcalls = [StoreElement 0 99], outcome = Inl (PendingException 1)\<rparr>"]
      t [of "\<lparr>upcalls = [StoreElement 0 99], outcome = Inr 42\<rparr>"]
      t [of "\<lparr>upcalls = [], outcome = Inr 42\<rparr>"]
    by (auto simp: st obj_at_put_def jt1_def)
qed

subsection \<open>Decode failures\<close>

text \<open>
  C5. The first fill of a walk ends in "decode failed" exactly when the two skipping
  loops leave a cursor that is not exhausted and \<^verbatim>\<open>fill_in_frames\<close> then returns zero
  frames; \<^verbatim>\<open>fetchNextBatch\<close> ends in "later decode failed" exactly when the cursor is
  not exhausted after it has been advanced and \<^verbatim>\<open>fill_in_frames\<close> returns zero
  frames. When \<^verbatim>\<open>skip_frames\<close> is at least the number of frames of the stack, the
  first fill decodes nothing and leaves the buffer, the heap and the trace as they were:
  it returns \<^verbatim>\<open>start_index\<close> with the cursor exhausted, unless advancing the cursor
  has ended the VM, which does not happen on a class-only cursor whose frames all have
  a method. The walk then returns what the orchestration logic returns.
\<close>

theorem decode_failure_exactly:
  "(fst (fetchFirstBatch_fill vm stream mode skip_frames frame_count start_index frames_array h tr)
       = Inl DecodeFailure
     \<longleftrightarrow> (\<exists>s1 s2 st. skip_walker_frames vm stream = Inr s1
            \<and> skip_requested_frames vm skip_frames 0 s1 = Inr s2 \<and> \<not> at_end s2
            \<and> fill_in_frames vm mode s2 frame_count start_index frames_array start_index h tr
                = (Inr 0, st)))
   \<and> (fst (fetchNextBatch vm jt mode magic frame_count start_index (Some a) w)
       = Inl LaterDecodeFailure
     \<longleftrightarrow> (\<exists>s s1 st. from_current w jt magic (Some a) = Inr (Some magic)
            \<and> 0 < frame_count \<and> jint_add frame_count start_index \<le> int (length a)
            \<and> streams w magic = Some s \<and> \<not> at_end s \<and> next vm s = Inr s1 \<and> \<not> at_end s1
            \<and> fill_in_frames vm mode s1 frame_count start_index a start_index (heap w)
                 (trace w @ [FinishProcessing]) = (Inr 0, st)))
   \<and> (int (length (cur_frames stream)) \<le> skip_frames
     \<longrightarrow> (\<exists>r s2. fetchFirstBatch_fill vm stream mode skip_frames frame_count start_index
                      frames_array h tr
                 = (r, \<lparr>fs_stream = s2, fs_frames_array = frames_array, fs_heap = h,
                        fs_end_index = start_index, fs_frames_decoded = 0, fs_trace = tr\<rparr>)
             \<and> (r = Inr start_index \<and> at_end s2 \<or> (\<exists>msg. r = Inl (Fatal msg)))
             \<and> (java_frames_have_methods stream \<longrightarrow> r = Inr start_index)))
   \<and> (int (length (cur_frames stream)) \<le> skip_frames \<and> java_frames_have_methods stream
        \<and> streams w this = Some stream \<and> a \<noteq> []
     \<longrightarrow> (\<exists>w'. fetchFirstBatch vm jt this \<lparr>upcalls = [], outcome = Inr v\<rparr> mode skip_frames
                    frame_count start_index a w
                 = (Inr v, w', a[0 := NULL])
               \<and> trace w' = trace w \<and> heap w' = heap w))"
  using first_decode_failure_iff [of vm stream mode skip_frames frame_count start_index frames_array h tr]
    later_decode_failure_iff [of vm jt mode magic frame_count start_index a w]
    fetchFirstBatch_fill_skip_all [of stream skip_frames vm mode frame_count start_index frames_array h tr]
    fetchFirstBatch_skip_all [of stream skip_frames w this a vm jt v mode frame_count start_index]
  by blast

text \<open>
  A stack of one hidden frame makes the first fill fail; the stack \<open>A\<close>, \<open>B\<close>
  (hidden) with the cursor on \<open>A\<close> makes the next batch fail, also when the batch
  size is the greatest \<^verbatim>\<open>int\<close>, whose sum with the start index wraps around and
  passes the assertion on the length of the buffer; five frames to skip on the stack
  \<open>A\<close>, \<open>C\<close> give an empty batch and a walk that returns 42.
\<close>

theorem decode_failure_exactly_witness:
  "fst (fetchFirstBatch_fill vm0 (java_stream jt1 0 [frame_B] True) 0 0 2 1 [0, 501, 502] heap0 [])
     = Inl DecodeFailure
   \<and> fst (fetchNextBatch vm0 jt1 0 64 2 1 (Some [11, 501, 502])
            (world1 (java_stream jt1 64 [frame_A, frame_B] True)))
     = Inl LaterDecodeFailure
   \<and> jint_add 2147483647 1 \<le> int (length [11, 501, 502 :: oop])
   \<and> fst (fetchNextBatch vm0 jt1 0 64 2147483647 1 (Some [11, 501, 502])
            (world1 (java_stream jt1 64 [frame_A, frame_B] True)))
     = Inl LaterDecodeFailure
   \<and> int (length (cur_frames (java_stream jt1 0 [frame_A, frame_C] True))) \<le> 5
   \<and> java_frames_have_methods (java_stream jt1 0 [frame_A, frame_C] True)
   \<and> fst (fetchFirstBatch_fill vm0 (java_stream jt1 0 [frame_A, frame_C] True) 0 5 2 1
             [0, 501, 502] heap0 []) = Inr 1
   \<and> fst (fetchFirstBatch vm0 jt1 64 \<lparr>upcalls = [], outcome = Inr 42\<rparr> 0 5 2 1 [0, 501, 502]
             (world1 (java_stream jt1 0 [frame_A, frame_C] True))) = Inr 42"
proof -
  let ?B = "java_stream jt1 0 [frame_B] True"
  let ?AB = "java_stream jt1 64 [frame_A, frame_B] True"
  let ?AC = "java_stream jt1 0 [frame_A, frame_C] True"
  note t1 = decode_failure_exactly [where vm = vm0 and stream = ?B and mode = 0
      and skip_frames = 0 and frame_count = 2 and start_index = 1
      and frames_array = "[0, 501, 502]" and h = heap0 and tr = "[]"
      and jt = jt1 and magic = 64 and a = "[11, 501, 502]" and w = "world1 ?AB"]
  note t2 = decode_failure_exactly [where vm = vm0 and stream = ?AC and mode = 0
      and skip_frames = 5 and frame_count = 2 and start_index = 1
      and frames_array = "[0, 501, 502]" and h = heap0 and tr = "[]"
      and jt = jt1 and magic = 64 and a = "[0, 501, 502]" and w = "world1 ?AC"
      and this = 64 and v = 42]
  have sk: "skip_walker_frames vm0 ?B = Inr ?B" "skip_requested_frames vm0 0 0 ?B = Inr ?B"
    "\<not> at_end ?B"
    by (simp_all add: skip_walker_frames.simps skip_requested_frames.simps run_defs)
  have "\<exists>st. fill_in_frames vm0 0 ?B 2 1 [0, 501, 502] 1 heap0 [] = (Inr 0, st)"
    by (simp add: run_defs)
  with sk t1 have first: "fst (fetchFirstBatch_fill vm0 ?B 0 0 2 1 [0, 501, 502] heap0 [])
     = Inl DecodeFailure" by blast
  have fc: "from_current (world1 ?AB) jt1 64 (Some [11, 501, 502]) = Inr (Some 64)"
    "streams (world1 ?AB) 64 = Some ?AB" "\<not> at_end ?AB"
    "next vm0 ?AB = Inr (java_stream jt1 64 [frame_B] True)"
    "\<not> at_end (java_stream jt1 64 [frame_B] True)"
    by (simp_all add: run_defs)
  have "\<exists>st. fill_in_frames vm0 0 (java_stream jt1 64 [frame_B] True) 2 1 [11, 501, 502] 1
            (heap (world1 ?AB)) (trace (world1 ?AB) @ [FinishProcessing]) = (Inr 0, st)"
    by (simp add: run_defs)
  with fc t1 have later: "fst (fetchNextBatch vm0 jt1 0 64 2 1 (Some [11, 501, 502]) (world1 ?AB))
     = Inl LaterDecodeFailure"
    by (simp add: jint_add_eq)
  note t3 = decode_failure_exactly [where vm = vm0 and stream = ?B and mode = 0
      and skip_frames = 0 and frame_count = 2147483647 and start_index = 1
      and frames_array = "[0, 501, 502]" and h = heap0 and tr = "[]"
      and jt = jt1 and magic = 64 and a = "[11, 501, 502]" and w = "world1 ?AB"]
  have wrap: "jint_add 2147483647 1 \<le> int (length [11, 501, 502 :: oop])"
    by (simp add: jint_add_eq)
  have "\<exists>st. fill_in_frames vm0 0 (java_stream jt1 64 [frame_B] True) 2147483647 1 [11, 501, 502] 1
            (heap (world1 ?AB)) (trace (world1 ?AB) @ [FinishProcessing]) = (Inr 0, st)"
    by (simp add: run_defs)
  with fc t3 wrap have later_max:
    "fst (fetchNextBatch vm0 jt1 0 64 2147483647 1 (Some [11, 501, 502]) (world1 ?AB))
     = Inl LaterDecodeFailure"
    by simp
  have h: "int (length (cur_frames ?AC)) \<le> 5" "java_frames_have_methods ?AC"
    "streams (world1 ?AC) 64 = Some ?AC"
    by (simp_all add: java_frames_have_methods_def run_defs)
  from t2 [THEN conjunct2, THEN conjunct2, THEN conjunct1] h
  have "fst (fetchFirstBatch_fill vm0 ?AC 0 5 2 1 [0, 501, 502] heap0 []) = Inr 1"
    by auto
  moreover from t2 [THEN conjunct2, THEN conjunct2, THEN conjunct2] h
  have "fst (fetchFirstBatch vm0 jt1 64 \<lparr>upcalls = [], outcome = Inr 42\<rparr> 0 5 2 1 [0, 501, 502]
             (world1 ?AC)) = Inr 42"
    by auto
  ultimately show ?thesis using first later wrap later_max h by simp
qed

subsection \<open>Walking in batches\<close>

text \<open>
  C3, as the code has it. A call of \<^verbatim>\<open>fetchNextBatch\<close> either leaves the trace as it
  was or adds to it a flush of the deferred processing followed by calls of
  \<^verbatim>\<open>fill_frame\<close> only, and the frames these decode lie, in their order, behind the
  frame that the cursor stood on: the cursor is advanced before the refill. Over a whole
  walk of one cursor (the first batch, every later call of \<^verbatim>\<open>fetchNextBatch\<close> with
  the token of the cursor and, between them, calls with another token that decode
  nothing, attempts to rebind the cursor that fail, rebindings of other cursors and
  stores into the buffer) the frames decoded are a subsequence of the stack that the
  cursor started on: top to bottom, each activation at most once. They are pairwise
  different when the activations of the stack are.
\<close>

theorem no_frame_decoded_twice:
  "(fetchNextBatch vm jt mode magic frame_count start_index (Some a) w = (r, w', a')
      \<longrightarrow> trace w' = trace w
          \<or> (\<exists>s evs. streams w magic = Some s \<and> trace w' = trace w @ FinishProcessing # evs
                 \<and> FinishProcessing \<notin> set evs
                 \<and> subseq (decoded_frames evs) (tl (cur_frames s))))
   \<and> (streams w this = Some stream
        \<and> walks_one_cursor vm jt this stackStream mode skip_frames frame_count start_index
             frames_array w
        \<and> fetchFirstBatch vm jt this stackStream mode skip_frames frame_count start_index
             frames_array w = (r1, w1, a1)
      \<longrightarrow> (\<exists>evs. trace w1 = trace w @ evs
             \<and> subseq (decoded_frames evs) (cur_frames stream)
             \<and> (distinct (cur_frames stream) \<longrightarrow> distinct (decoded_frames evs))))"
proof (intro conjI impI)
  assume "fetchNextBatch vm jt mode magic frame_count start_index (Some a) w = (r, w', a')"
  then show "trace w' = trace w
          \<or> (\<exists>s evs. streams w magic = Some s \<and> trace w' = trace w @ FinishProcessing # evs
                 \<and> FinishProcessing \<notin> set evs
                 \<and> subseq (decoded_frames evs) (tl (cur_frames s)))"
    by (rule fetchNextBatch_trace)
next
  assume a: "streams w this = Some stream
        \<and> walks_one_cursor vm jt this stackStream mode skip_frames frame_count start_index
             frames_array w
        \<and> fetchFirstBatch vm jt this stackStream mode skip_frames frame_count start_index
             frames_array w = (r1, w1, a1)"
  then obtain s' where "walked (cur_frames stream) (trace w) s' (trace w1)"
    using fetchFirstBatch_walked [of w this stream vm jt stackStream mode skip_frames
        frame_count start_index frames_array r1 w1 a1] by blast
  from walked_subseq [OF this] obtain evs where
    evs: "trace w1 = trace w @ evs" "subseq (decoded_frames evs) (cur_frames stream)" by blast
  have "distinct (cur_frames stream) \<longrightarrow> distinct (decoded_frames evs)"
    using evs(2) by (auto simp: subseq_conv_nths)
  with evs show "\<exists>evs. trace w1 = trace w @ evs
             \<and> subseq (decoded_frames evs) (cur_frames stream)
             \<and> (distinct (cur_frames stream) \<longrightarrow> distinct (decoded_frames evs))" by blast
qed

text \<open>
  A walk over \<open>A\<close>, \<open>B\<close> (hidden), \<open>C\<close> in batches of one frame. After the first
  batch the orchestration logic presents the token zero, which is refused, and tries to
  rebind the cursor while the reserved slot is overwritten, which is refused too; with
  the slot restored, the next batch decodes \<open>C\<close> after a flush, into the record
  behind slot 1, and the last one finds the cursor exhausted after another flush.
\<close>

theorem no_frame_decoded_twice_witness:
  "walks_one_cursor vm0 jt1 64 refused_calls 0 0 1 1 [0, 501]
      (world1 (java_stream jt1 0 [frame_A, frame_B, frame_C] True))
   \<and> fst walk_refused_calls = Inr 42
   \<and> trace (fst (snd walk_refused_calls))
       = [FillFrame frame_A NULL, FinishProcessing, FillFrame frame_C NULL, FinishProcessing]
   \<and> subseq (decoded_frames (trace (fst (snd walk_refused_calls)))) [frame_A, frame_B, frame_C]
   \<and> distinct (decoded_frames (trace (fst (snd walk_refused_calls))))
   \<and> heap (fst (snd walk_refused_calls)) 501 = Some (frame_info frame_C NULL)"
proof -
  let ?s = "java_stream jt1 0 [frame_A, frame_B, frame_C] True"
  obtain r1 w1 a1 where run:
    "fetchFirstBatch vm0 jt1 64 refused_calls 0 0 1 1 [0, 501] (world1 ?s) = (r1, w1, a1)"
    by (cases "fetchFirstBatch vm0 jt1 64 refused_calls 0 0 1 1 [0, 501] (world1 ?s)")
  have ev: "fst walk_refused_calls = Inr 42"
    "trace (fst (snd walk_refused_calls))
       = [FillFrame frame_A NULL, FinishProcessing, FillFrame frame_C NULL, FinishProcessing]"
    "heap (fst (snd walk_refused_calls)) 501 = Some (frame_info frame_C NULL)"
    by (simp_all add: walk_refused_calls_def walk_defs run_defs out_defs)
  have h: "streams (world1 ?s) 64 = Some ?s"
    "walks_one_cursor vm0 jt1 64 refused_calls 0 0 1 1 [0, 501] (world1 ?s)"
    "distinct (cur_frames ?s)"
    by (simp_all add: walks_one_cursor_def walk_defs run_defs)
  from no_frame_decoded_twice [where w = "world1 ?s" and this = 64 and stream = ?s
      and stackStream = refused_calls and vm = vm0 and jt = jt1 and mode = 0 and skip_frames = 0
      and frame_count = 1 and start_index = 1 and frames_array = "[0, 501]"
      and ?r1.0 = r1 and ?w1.0 = w1 and ?a1.0 = a1, THEN conjunct2] h run
  obtain evs where evs: "trace w1 = trace (world1 ?s) @ evs"
    "subseq (decoded_frames evs) (cur_frames ?s)" "distinct (decoded_frames evs)"
    by blast
  have "w1 = fst (snd walk_refused_calls)" using run by (simp add: walk_refused_calls_def)
  with evs have "subseq (decoded_frames (trace (fst (snd walk_refused_calls)))) [frame_A, frame_B, frame_C]"
    "distinct (decoded_frames (trace (fst (snd walk_refused_calls))))"
    by (simp_all add: world1_def cur_frames_def java_stream_def)
  with ev h(2) show ?thesis by simp
qed

text \<open>
  The specification asks for a sequence of tuples without duplicates, over every walk
  of one cursor. A walk in batches of one frame over two activations of one method at
  the same bytecode offset decodes each activation once, and the two tuples are equal.
  And a walk of the continuation 7, whose frames \<open>A\<close> and \<open>C\<close> are different, in
  which the orchestration logic rebinds the cursor to the continuation after the first
  batch, starts again from \<open>A\<close>: the next batch advances past \<open>A\<close> and decodes \<open>C\<close>
  a second time.
\<close>

theorem decoded_twice_counterexample:
  "fst walk_recursion = Inr 42
   \<and> decoded_frames (trace (fst (snd walk_recursion))) = [frame_R1, frame_R2]
   \<and> frame_R1 \<noteq> frame_R2
   \<and> \<not> distinct (decoded_tuples (trace (fst (snd walk_recursion))))
   \<and> fst walk_rebound = Inr 42
   \<and> distinct (last_java_vframe vm1 7)
   \<and> decoded_frames (trace (fst (snd walk_rebound))) = [frame_A, frame_C, frame_C]
   \<and> \<not> distinct (decoded_frames (trace (fst (snd walk_rebound))))"
  by (simp add: walk_recursion_def walk_rebound_def walk_defs run_defs)

end
